theory Spec2Isabelle
  imports Main "HOL-Library.Word"
begin

unbundle bit_operations_syntax

section \<open>Machine types\<close>

text \<open>
  The codec is Go code. \<open>byte\<close>, \<open>uint16\<close>, \<open>uint32\<close> and \<open>uint64\<close> are words, whose
  arithmetic wraps as Go's does. Go's \<open>int\<close> is taken at its 64-bit width (amd64, arm64):
  a value of type \<open>int\<close> is an \<open>int\<close> of HOL between \<open>minInt\<close> and \<open>maxInt\<close>, the
  conversion \<open>int(n)\<close> of a \<open>uint64\<close> reinterprets the bits (\<open>sint\<close>), and the one
  subtraction of the code that can leave the range is wrapped by \<open>wrap_int\<close>.
\<close>

type_synonym byte = "8 word"
type_synonym uint16 = "16 word"
type_synonym uint32 = "32 word"
type_synonym uint64 = "64 word"

text \<open>\<open>const maxInt = int(^uint(0) >> 1)\<close>\<close>

definition maxInt :: int where
  "maxInt = 2 ^ 63 - 1"

definition wrap_int :: "int \<Rightarrow> int" where
  "wrap_int k = signed_take_bit 63 k"

definition int_of_uint64 :: "uint64 \<Rightarrow> int" where
  "int_of_uint64 n = sint n"

text \<open>
  A panic ends the operation: \<open>ErrTooLarge\<close> is the package's own error value, raised by
  \<open>grow\<close>; \<open>BytesErrTooLarge\<close> is \<open>bytes.ErrTooLarge\<close>, raised by \<open>makeSlice\<close> when
  \<open>make\<close> panics; the other two are the run-time panics of a slice expression and of an
  index expression out of range.
\<close>

datatype panic = ErrTooLarge | BytesErrTooLarge | SliceBoundsOutOfRange | IndexOutOfRange

definition bind_p :: "panic + 'a \<Rightarrow> ('a \<Rightarrow> panic + 'b) \<Rightarrow> panic + 'b" where
  "bind_p r f = (case r of Inl e \<Rightarrow> Inl e | Inr x \<Rightarrow> f x)"

section \<open>Byte slices\<close>

text \<open>
  A \<open>[]byte\<close> is a view of a backing array: \<open>arr\<close> holds the array from the slice's
  first element up to its capacity, \<open>slen\<close> is the slice's length. The elements of the
  slice are the first \<open>slen\<close> bytes of \<open>arr\<close>; the bytes behind them are kept, as a
  reslice makes them visible again.
\<close>

record slice =
  arr :: "byte list"
  slen :: nat

definition len_s :: "slice \<Rightarrow> int" where
  "len_s b = int (slen b)"

definition cap_s :: "slice \<Rightarrow> int" where
  "cap_s b = int (length (arr b))"

definition elems :: "slice \<Rightarrow> byte list" where
  "elems b = take (slen b) (arr b)"

text \<open>\<open>b[:k]\<close>: panics unless \<open>0 \<le> k \<le> cap(b)\<close>.\<close>

definition reslice_to :: "slice \<Rightarrow> int \<Rightarrow> panic + slice" where
  "reslice_to b k =
     (if 0 \<le> k \<and> k \<le> cap_s b then Inr (b\<lparr>slen := nat k\<rparr>) else Inl SliceBoundsOutOfRange)"

text \<open>
  \<open>b[m:]\<close>: panics unless \<open>0 \<le> m \<le> len(b)\<close>. The result shares the backing array of
  \<open>b\<close>, so it is modelled as a window into \<open>b\<close>: the index in \<open>b\<close> of its first element.
  The window ends where \<open>b\<close> ends.
\<close>

definition slice_from :: "slice \<Rightarrow> int \<Rightarrow> panic + nat" where
  "slice_from b m =
     (if 0 \<le> m \<and> m \<le> len_s b then Inr (nat m) else Inl SliceBoundsOutOfRange)"

text \<open>\<open>w[i:]\<close> for the window \<open>w\<close> of \<open>b\<close>: panics unless \<open>i \<le> len(w)\<close>.\<close>

definition window_from :: "slice \<Rightarrow> nat \<Rightarrow> nat \<Rightarrow> panic + nat" where
  "window_from b w i =
     (if w + i \<le> slen b then Inr (w + i) else Inl SliceBoundsOutOfRange)"

text \<open>\<open>w[i] = x\<close> for the window \<open>w\<close> of \<open>b\<close>.\<close>

definition store :: "slice \<Rightarrow> nat \<Rightarrow> nat \<Rightarrow> byte \<Rightarrow> panic + slice" where
  "store b w i x =
     (if w + i < slen b then Inr (b\<lparr>arr := (arr b)[w + i := x]\<rparr>) else Inl IndexOutOfRange)"

text \<open>
  \<open>copy(w, p)\<close> for the window \<open>w\<close> of \<open>b\<close>: copies as many bytes as the shorter of the
  two holds; it never panics.
\<close>

definition copy_s :: "slice \<Rightarrow> nat \<Rightarrow> byte list \<Rightarrow> slice" where
  "copy_s b w p =
     (let k = min (slen b - w) (length p)
      in b\<lparr>arr := take w (arr b) @ take k p @ drop (w + k) (arr b)\<rparr>)"

text \<open>
  \<open>make([]byte, n)\<close> inside \<open>makeSlice\<close>: the run time refuses a negative length and a
  length above its allocation limit, here the parameter \<open>maxAlloc\<close>; \<open>makeSlice\<close>
  turns that panic into \<open>bytes.ErrTooLarge\<close>. The new array is zeroed.
\<close>

definition makeSlice :: "nat \<Rightarrow> int \<Rightarrow> panic + slice" where
  "makeSlice maxAlloc n =
     (if n < 0 \<or> int maxAlloc < n then Inl BytesErrTooLarge
      else Inr \<lparr>arr = replicate (nat n) 0, slen = nat n\<rparr>)"

subsection \<open>Little-endian stores and loads of \<open>encoding/binary\<close>\<close>

text \<open>
  \<open>binary.LittleEndian.PutUint16(w, v)\<close> and its siblings first index the last byte
  they write (\<open>_ = b[1]\<close>), so a short window panics before anything is stored.
\<close>

definition PutUint16 :: "slice \<Rightarrow> nat \<Rightarrow> uint16 \<Rightarrow> panic + slice" where
  "PutUint16 b w v =
     (if w + 1 < slen b
      then Inr (b\<lparr>arr := (arr b)[w := ucast v, w + 1 := ucast (drop_bit 8 v)]\<rparr>)
      else Inl IndexOutOfRange)"

definition PutUint32 :: "slice \<Rightarrow> nat \<Rightarrow> uint32 \<Rightarrow> panic + slice" where
  "PutUint32 b w v =
     (if w + 3 < slen b
      then Inr (b\<lparr>arr := (arr b)[w := ucast v, w + 1 := ucast (drop_bit 8 v),
                              w + 2 := ucast (drop_bit 16 v), w + 3 := ucast (drop_bit 24 v)]\<rparr>)
      else Inl IndexOutOfRange)"

definition PutUint64 :: "slice \<Rightarrow> nat \<Rightarrow> uint64 \<Rightarrow> panic + slice" where
  "PutUint64 b w v =
     (if w + 7 < slen b
      then Inr (b\<lparr>arr := (arr b)[w := ucast v, w + 1 := ucast (drop_bit 8 v),
                              w + 2 := ucast (drop_bit 16 v), w + 3 := ucast (drop_bit 24 v),
                              w + 4 := ucast (drop_bit 32 v), w + 5 := ucast (drop_bit 40 v),
                              w + 6 := ucast (drop_bit 48 v), w + 7 := ucast (drop_bit 56 v)]\<rparr>)
      else Inl IndexOutOfRange)"

definition Uint16 :: "byte list \<Rightarrow> panic + uint16" where
  "Uint16 b =
     (if 1 < length b then Inr (ucast (b ! 0) OR push_bit 8 (ucast (b ! 1)))
      else Inl IndexOutOfRange)"

definition Uint32 :: "byte list \<Rightarrow> panic + uint32" where
  "Uint32 b =
     (if 3 < length b
      then Inr (ucast (b ! 0) OR push_bit 8 (ucast (b ! 1)) OR push_bit 16 (ucast (b ! 2))
                OR push_bit 24 (ucast (b ! 3)))
      else Inl IndexOutOfRange)"

definition Uint64 :: "byte list \<Rightarrow> panic + uint64" where
  "Uint64 b =
     (if 7 < length b
      then Inr (ucast (b ! 0) OR push_bit 8 (ucast (b ! 1)) OR push_bit 16 (ucast (b ! 2))
                OR push_bit 24 (ucast (b ! 3)) OR push_bit 32 (ucast (b ! 4))
                OR push_bit 40 (ucast (b ! 5)) OR push_bit 48 (ucast (b ! 6))
                OR push_bit 56 (ucast (b ! 7)))
      else Inl IndexOutOfRange)"

section \<open>The sink\<close>

record ZeroCopySink =
  buf :: slice

definition tryGrowByReSlice :: "ZeroCopySink \<Rightarrow> int \<Rightarrow> panic + (ZeroCopySink \<times> int \<times> bool)" where
  "tryGrowByReSlice z n =
     (let l = len_s (buf z)
      in if n \<le> cap_s (buf z) - l
         then bind_p (reslice_to (buf z) (l + n)) (\<lambda>b. Inr (z\<lparr>buf := b\<rparr>, l, True))
         else Inr (z, 0, False))"

definition grow :: "nat \<Rightarrow> ZeroCopySink \<Rightarrow> int \<Rightarrow> panic + (ZeroCopySink \<times> int)" where
  "grow maxAlloc z n =
     bind_p (tryGrowByReSlice z n) (\<lambda>(z1, i, ok).
       if ok then Inr (z1, i)
       else
         let l = len_s (buf z1); c = cap_s (buf z1)
         in if c > maxInt - c - n then Inl ErrTooLarge
            else bind_p (makeSlice maxAlloc (2 * c + n)) (\<lambda>nb.
                 bind_p (reslice_to (copy_s nb 0 (elems (buf z1))) (l + n)) (\<lambda>b.
                 Inr (z1\<lparr>buf := b\<rparr>, l))))"

text \<open>
  \<open>NextBytes\<close> returns the window \<open>z.buf[m:]\<close>, which shares the sink's array: the
  model returns the sink and the window's first index.
\<close>

definition NextBytes :: "nat \<Rightarrow> ZeroCopySink \<Rightarrow> uint64 \<Rightarrow> panic + (ZeroCopySink \<times> nat)" where
  "NextBytes maxAlloc z n =
     bind_p (tryGrowByReSlice z (int_of_uint64 n)) (\<lambda>(z1, m, ok).
     bind_p (if ok then Inr (z1, m) else grow maxAlloc z1 (int_of_uint64 n)) (\<lambda>(z2, m).
     bind_p (slice_from (buf z2) m) (\<lambda>data. Inr (z2, data))))"

definition WriteBytes :: "nat \<Rightarrow> ZeroCopySink \<Rightarrow> byte list \<Rightarrow> panic + ZeroCopySink" where
  "WriteBytes maxAlloc z p =
     bind_p (NextBytes maxAlloc z (of_nat (length p))) (\<lambda>(z1, data).
       Inr (z1\<lparr>buf := copy_s (buf z1) data p\<rparr>))"

definition Size :: "ZeroCopySink \<Rightarrow> uint64" where
  "Size z = of_nat (slen (buf z))"

definition BackUp :: "ZeroCopySink \<Rightarrow> uint64 \<Rightarrow> panic + ZeroCopySink" where
  "BackUp z n =
     (let l = wrap_int (len_s (buf z) - int_of_uint64 n)
      in bind_p (reslice_to (buf z) l) (\<lambda>b. Inr (z\<lparr>buf := b\<rparr>)))"

definition WriteUint8 :: "nat \<Rightarrow> ZeroCopySink \<Rightarrow> byte \<Rightarrow> panic + ZeroCopySink" where
  "WriteUint8 maxAlloc z data =
     bind_p (NextBytes maxAlloc z 1) (\<lambda>(z1, w).
     bind_p (store (buf z1) w 0 data) (\<lambda>b. Inr (z1\<lparr>buf := b\<rparr>)))"

definition WriteByte :: "nat \<Rightarrow> ZeroCopySink \<Rightarrow> byte \<Rightarrow> panic + ZeroCopySink" where
  "WriteByte maxAlloc z c = WriteUint8 maxAlloc z c"

definition WriteBool :: "nat \<Rightarrow> ZeroCopySink \<Rightarrow> bool \<Rightarrow> panic + ZeroCopySink" where
  "WriteBool maxAlloc z data =
     (if data then WriteByte maxAlloc z 1 else WriteByte maxAlloc z 0)"

definition WriteUint16 :: "nat \<Rightarrow> ZeroCopySink \<Rightarrow> uint16 \<Rightarrow> panic + ZeroCopySink" where
  "WriteUint16 maxAlloc z data =
     bind_p (NextBytes maxAlloc z 2) (\<lambda>(z1, w).
     bind_p (PutUint16 (buf z1) w data) (\<lambda>b. Inr (z1\<lparr>buf := b\<rparr>)))"

definition WriteUint32 :: "nat \<Rightarrow> ZeroCopySink \<Rightarrow> uint32 \<Rightarrow> panic + ZeroCopySink" where
  "WriteUint32 maxAlloc z data =
     bind_p (NextBytes maxAlloc z 4) (\<lambda>(z1, w).
     bind_p (PutUint32 (buf z1) w data) (\<lambda>b. Inr (z1\<lparr>buf := b\<rparr>)))"

definition WriteUint64 :: "nat \<Rightarrow> ZeroCopySink \<Rightarrow> uint64 \<Rightarrow> panic + ZeroCopySink" where
  "WriteUint64 maxAlloc z data =
     bind_p (NextBytes maxAlloc z 8) (\<lambda>(z1, w).
     bind_p (PutUint64 (buf z1) w data) (\<lambda>b. Inr (z1\<lparr>buf := b\<rparr>)))"

text \<open>
  The signed writers convert to the unsigned type of the same width, which keeps the
  bits: a signed value is the word itself.
\<close>

definition WriteInt64 :: "nat \<Rightarrow> ZeroCopySink \<Rightarrow> uint64 \<Rightarrow> panic + ZeroCopySink" where
  "WriteInt64 maxAlloc z data = WriteUint64 maxAlloc z data"

definition WriteInt32 :: "nat \<Rightarrow> ZeroCopySink \<Rightarrow> uint32 \<Rightarrow> panic + ZeroCopySink" where
  "WriteInt32 maxAlloc z data = WriteUint32 maxAlloc z data"

definition WriteInt16 :: "nat \<Rightarrow> ZeroCopySink \<Rightarrow> uint16 \<Rightarrow> panic + ZeroCopySink" where
  "WriteInt16 maxAlloc z data = WriteUint16 maxAlloc z data"

definition WriteVarUint :: "nat \<Rightarrow> ZeroCopySink \<Rightarrow> uint64 \<Rightarrow> panic + (ZeroCopySink \<times> uint64)" where
  "WriteVarUint maxAlloc z data =
     bind_p (NextBytes maxAlloc z 9) (\<lambda>(z1, w).
     bind_p
       (if data < 0xFD then
          bind_p (store (buf z1) w 0 (ucast data)) (\<lambda>b. Inr (b, 1))
        else if data \<le> 0xFFFF then
          bind_p (store (buf z1) w 0 0xFD) (\<lambda>b.
          bind_p (window_from b w 1) (\<lambda>w1.
          bind_p (PutUint16 b w1 (ucast data)) (\<lambda>b. Inr (b, 3))))
        else if data \<le> 0xFFFFFFFF then
          bind_p (store (buf z1) w 0 0xFE) (\<lambda>b.
          bind_p (window_from b w 1) (\<lambda>w1.
          bind_p (PutUint32 b w1 (ucast data)) (\<lambda>b. Inr (b, 5))))
        else
          bind_p (store (buf z1) w 0 0xFF) (\<lambda>b.
          bind_p (window_from b w 1) (\<lambda>w1.
          bind_p (PutUint64 b w1 data) (\<lambda>b. Inr (b, 9)))))
       (\<lambda>(b, size).
     bind_p (BackUp (z1\<lparr>buf := b\<rparr>) (9 - size)) (\<lambda>z2. Inr (z2, size))))"

definition WriteVarBytes :: "nat \<Rightarrow> ZeroCopySink \<Rightarrow> byte list \<Rightarrow> panic + (ZeroCopySink \<times> uint64)" where
  "WriteVarBytes maxAlloc z data =
     (let l = (of_nat (length data) :: uint64)
      in bind_p (WriteVarUint maxAlloc z l) (\<lambda>(z1, k).
         bind_p (WriteBytes maxAlloc z1 data) (\<lambda>z2. Inr (z2, k + l))))"

text \<open>A Go string is its bytes; \<open>Address\<close> and \<open>Uint256\<close> are byte arrays of 20 and 32.\<close>

definition WriteString :: "nat \<Rightarrow> ZeroCopySink \<Rightarrow> byte list \<Rightarrow> panic + (ZeroCopySink \<times> uint64)" where
  "WriteString maxAlloc z data = WriteVarBytes maxAlloc z data"

definition WriteAddress :: "nat \<Rightarrow> ZeroCopySink \<Rightarrow> byte list \<Rightarrow> panic + ZeroCopySink" where
  "WriteAddress maxAlloc z addr = WriteBytes maxAlloc z addr"

definition WriteHash :: "nat \<Rightarrow> ZeroCopySink \<Rightarrow> byte list \<Rightarrow> panic + ZeroCopySink" where
  "WriteHash maxAlloc z hash = WriteBytes maxAlloc z hash"

text \<open>
  \<open>NewZeroCopySink(b)\<close>: \<open>None\<close> is the nil slice, replaced by
  \<open>make([]byte, 0, 512)\<close>.
\<close>

definition NewZeroCopySink :: "slice option \<Rightarrow> ZeroCopySink" where
  "NewZeroCopySink b =
     (case b of None \<Rightarrow> \<lparr>buf = \<lparr>arr = replicate 512 0, slen = 0\<rparr>\<rparr>
      | Some b' \<Rightarrow> \<lparr>buf = b'\<rparr>)"

definition Bytes :: "ZeroCopySink \<Rightarrow> byte list" where
  "Bytes z = elems (buf z)"

definition Reset :: "ZeroCopySink \<Rightarrow> panic + ZeroCopySink" where
  "Reset z = bind_p (reslice_to (buf z) 0) (\<lambda>b. Inr (z\<lparr>buf := b\<rparr>))"

section \<open>The source\<close>

record ZeroCopySource =
  s :: "byte list"
  off :: uint64

text \<open>
  Modelled from the spec: \<open>SafeAdd\<close> is not among the source files. The spec describes
  it as the overflow-checked unsigned 64-bit addition \<open>(a, b) \<rightarrow> (sum, overflowed)\<close>; the
  sum is the wrapped one, which the callers discard when the flag is set.
\<close>

definition SafeAdd :: "uint64 \<Rightarrow> uint64 \<Rightarrow> uint64 \<times> bool" where
  "SafeAdd x y = (x + y, 2 ^ 64 \<le> unat x + unat y)"

text \<open>
  \<open>b[lo:hi]\<close> with \<open>uint64\<close> indices on the source's data: panics unless
  \<open>lo \<le> hi \<le> len(b)\<close> (the data's capacity is taken to be its length; the code
  never passes a \<open>hi\<close> above the length).
\<close>

definition subslice :: "byte list \<Rightarrow> uint64 \<Rightarrow> uint64 \<Rightarrow> panic + byte list" where
  "subslice b lo hi =
     (if lo \<le> hi \<and> unat hi \<le> length b
      then Inr (take (unat hi - unat lo) (drop (unat lo) b))
      else Inl SliceBoundsOutOfRange)"

definition Len :: "ZeroCopySource \<Rightarrow> uint64" where
  "Len z =
     (let length = (of_nat (length (s z)) :: uint64)
      in if off z \<ge> length then 0 else length - off z)"

text \<open>\<open>OffBytes\<close> is \<open>z.s[z.off:]\<close>, which panics when the cursor is behind the data.\<close>

definition OffBytes :: "ZeroCopySource \<Rightarrow> panic + byte list" where
  "OffBytes z = subslice (s z) (off z) (of_nat (length (s z)))"

definition Pos :: "ZeroCopySource \<Rightarrow> uint64" where
  "Pos z = off z"

definition SizeSrc :: "ZeroCopySource \<Rightarrow> uint64" where
  "SizeSrc z = of_nat (length (s z))"

definition NextBytesSrc :: "ZeroCopySource \<Rightarrow> uint64 \<Rightarrow> panic + (ZeroCopySource \<times> byte list \<times> bool)" where
  "NextBytesSrc z n =
     (let m = (of_nat (length (s z)) :: uint64);
          (end0, overflow) = SafeAdd (off z) n;
          (end, eof) = (if overflow \<or> end0 > m then (m, True) else (end0, False))
      in bind_p (subslice (s z) (off z) end) (\<lambda>data. Inr (z\<lparr>off := end\<rparr>, data, eof)))"

definition Skip :: "ZeroCopySource \<Rightarrow> uint64 \<Rightarrow> ZeroCopySource \<times> bool" where
  "Skip z n =
     (let m = (of_nat (length (s z)) :: uint64);
          (end0, overflow) = SafeAdd (off z) n;
          (end, eof) = (if overflow \<or> end0 > m then (m, True) else (end0, False))
      in (z\<lparr>off := end\<rparr>, eof))"

definition NextByte :: "ZeroCopySource \<Rightarrow> ZeroCopySource \<times> byte \<times> bool" where
  "NextByte z =
     (if off z \<ge> of_nat (length (s z)) then (z, 0, True)
      else (z\<lparr>off := off z + 1\<rparr>, s z ! unat (off z), False))"

definition NextUint8 :: "ZeroCopySource \<Rightarrow> ZeroCopySource \<times> byte \<times> bool" where
  "NextUint8 z = NextByte z"

definition NextBool :: "ZeroCopySource \<Rightarrow> ZeroCopySource \<times> bool \<times> bool" where
  "NextBool z =
     (let (z1, val, eof) = NextByte z
      in if val = 0 then (z1, False, eof)
         else if val = 1 then (z1, True, eof)
         else (z1, False, True))"

definition BackUpSrc :: "ZeroCopySource \<Rightarrow> uint64 \<Rightarrow> ZeroCopySource" where
  "BackUpSrc z n = z\<lparr>off := off z - n\<rparr>"

text \<open>The widths are the constants \<open>Uint16Size = 2\<close>, \<open>Uint32Size = 4\<close>, \<open>Uint64Size = 8\<close>.\<close>

definition NextUint16 :: "ZeroCopySource \<Rightarrow> panic + (ZeroCopySource \<times> uint16 \<times> bool)" where
  "NextUint16 z =
     bind_p (NextBytesSrc z 2) (\<lambda>(z1, b, eof).
       if eof then Inr (z1, 0, eof)
       else bind_p (Uint16 b) (\<lambda>v. Inr (z1, v, eof)))"

definition NextUint32 :: "ZeroCopySource \<Rightarrow> panic + (ZeroCopySource \<times> uint32 \<times> bool)" where
  "NextUint32 z =
     bind_p (NextBytesSrc z 4) (\<lambda>(z1, b, eof).
       if eof then Inr (z1, 0, eof)
       else bind_p (Uint32 b) (\<lambda>v. Inr (z1, v, eof)))"

definition NextUint64 :: "ZeroCopySource \<Rightarrow> panic + (ZeroCopySource \<times> uint64 \<times> bool)" where
  "NextUint64 z =
     bind_p (NextBytesSrc z 8) (\<lambda>(z1, b, eof).
       if eof then Inr (z1, 0, eof)
       else bind_p (Uint64 b) (\<lambda>v. Inr (z1, v, eof)))"

definition NextVarUint :: "ZeroCopySource \<Rightarrow> panic + (ZeroCopySource \<times> uint64 \<times> bool)" where
  "NextVarUint z =
     (let (z1, fb, eof) = NextByte z
      in if eof then Inr (z1, 0, eof)
         else if fb = 0xFD then
           bind_p (NextUint16 z1) (\<lambda>(z2, val, e).
             if e then Inr (z2, 0, e) else Inr (z2, ucast val, eof))
         else if fb = 0xFE then
           bind_p (NextUint32 z1) (\<lambda>(z2, val, e).
             if e then Inr (z2, 0, e) else Inr (z2, ucast val, eof))
         else if fb = 0xFF then
           bind_p (NextUint64 z1) (\<lambda>(z2, val, e).
             if e then Inr (z2, 0, e) else Inr (z2, val, eof))
         else Inr (z1, ucast fb, eof))"

definition NextVarBytes :: "ZeroCopySource \<Rightarrow> panic + (ZeroCopySource \<times> byte list \<times> bool)" where
  "NextVarBytes z =
     bind_p (NextVarUint z) (\<lambda>(z1, count, eof).
       if eof then Inr (z1, [], eof) else NextBytesSrc z1 count)"

text \<open>
  The signed readers convert the unsigned value of the same width, which keeps the bits.
\<close>

definition NextInt32 :: "ZeroCopySource \<Rightarrow> panic + (ZeroCopySource \<times> uint32 \<times> bool)" where
  "NextInt32 z = NextUint32 z"

definition NextInt64 :: "ZeroCopySource \<Rightarrow> panic + (ZeroCopySource \<times> uint64 \<times> bool)" where
  "NextInt64 z = NextUint64 z"

definition NextInt16 :: "ZeroCopySource \<Rightarrow> panic + (ZeroCopySource \<times> uint16 \<times> bool)" where
  "NextInt16 z = NextUint16 z"

text \<open>
  \<open>NextAddress\<close> and \<open>NextHash\<close> copy the bytes read into a zeroed array of
  \<open>AddrLen = 20\<close> and of \<open>Uint256Size = 32\<close> bytes; at end-of-data the array is
  returned as it is.
\<close>

definition NextAddress :: "ZeroCopySource \<Rightarrow> panic + (ZeroCopySource \<times> byte list \<times> bool)" where
  "NextAddress z =
     bind_p (NextBytesSrc z 20) (\<lambda>(z1, b, eof).
       if eof then Inr (z1, replicate 20 0, eof)
       else Inr (z1, arr (copy_s \<lparr>arr = replicate 20 0, slen = 20\<rparr> 0 b), eof))"

definition NextHash :: "ZeroCopySource \<Rightarrow> panic + (ZeroCopySource \<times> byte list \<times> bool)" where
  "NextHash z =
     bind_p (NextBytesSrc z 32) (\<lambda>(z1, b, eof).
       if eof then Inr (z1, replicate 32 0, eof)
       else Inr (z1, arr (copy_s \<lparr>arr = replicate 32 0, slen = 32\<rparr> 0 b), eof))"

definition NextString :: "ZeroCopySource \<Rightarrow> panic + (ZeroCopySource \<times> byte list \<times> bool)" where
  "NextString z = NextVarBytes z"

definition NewZeroCopySource :: "byte list \<Rightarrow> ZeroCopySource" where
  "NewZeroCopySource b = \<lparr>s = b, off = 0\<rparr>"

section \<open>Vocabulary of the properties\<close>

text \<open>
  What Go guarantees of every slice: the length is at most the capacity and the capacity
  fits an \<open>int\<close>. In this range the subtractions and sums of \<open>tryGrowByReSlice\<close> and
  \<open>grow\<close> stay inside \<open>int\<close>, so the exact arithmetic of the model is the machine's.
\<close>

definition sink_inv :: "ZeroCopySink \<Rightarrow> bool" where
  "sink_inv z \<longleftrightarrow>
     slen (buf z) \<le> length (arr (buf z)) \<and> int (length (arr (buf z))) \<le> maxInt"

text \<open>
  The four forms of a varint as the specification's table gives them: the value itself up
  to \<open>0xFC\<close>; \<open>0xFD\<close> and two bytes up to \<open>0xFFFF\<close>; \<open>0xFE\<close> and four bytes up to
  \<open>0xFFFFFFFF\<close>; \<open>0xFF\<close> and eight bytes above; the bytes least significant first.
\<close>

definition varint_form :: "uint64 \<Rightarrow> byte list" where
  "varint_form v =
     (if v \<le> 0xFC then [ucast v]
      else if v \<le> 0xFFFF then [0xFD, ucast v, ucast (drop_bit 8 v)]
      else if v \<le> 0xFFFFFFFF then
        [0xFE, ucast v, ucast (drop_bit 8 v), ucast (drop_bit 16 v), ucast (drop_bit 24 v)]
      else [0xFF, ucast v, ucast (drop_bit 8 v), ucast (drop_bit 16 v), ucast (drop_bit 24 v),
            ucast (drop_bit 32 v), ucast (drop_bit 40 v), ucast (drop_bit 48 v),
            ucast (drop_bit 56 v)])"

definition varint_size :: "uint64 \<Rightarrow> nat" where
  "varint_size v =
     (if v \<le> 0xFC then 1 else if v \<le> 0xFFFF then 3 else if v \<le> 0xFFFFFFFF then 5 else 9)"

text \<open>
  \<open>keeps z z'\<close>: the bytes written to \<open>z\<close> are still the first bytes of \<open>z'\<close>.
\<close>

definition keeps :: "ZeroCopySink \<Rightarrow> ZeroCopySink \<Rightarrow> bool" where
  "keeps z z' \<longleftrightarrow>
     slen (buf z) \<le> slen (buf z') \<and> take (slen (buf z)) (Bytes z') = Bytes z"

text \<open>
  The operations of the sink that write or reserve, as values, so that a property can be
  stated of every one of them and of every sequence of them. \<open>sink_do\<close> calls the
  operation and drops what it returns besides the sink.
\<close>

datatype sink_write =
    OpNextBytes uint64
  | OpWriteBytes "byte list"
  | OpWriteUint8 byte
  | OpWriteByte byte
  | OpWriteBool bool
  | OpWriteUint16 uint16
  | OpWriteUint32 uint32
  | OpWriteUint64 uint64
  | OpWriteInt64 uint64
  | OpWriteInt32 uint32
  | OpWriteInt16 uint16
  | OpWriteVarBytes "byte list"
  | OpWriteString "byte list"
  | OpWriteAddress "byte list"
  | OpWriteHash "byte list"
  | OpWriteVarUint uint64

fun sink_do :: "nat \<Rightarrow> ZeroCopySink \<Rightarrow> sink_write \<Rightarrow> panic + ZeroCopySink" where
  "sink_do A z (OpNextBytes n) = bind_p (NextBytes A z n) (\<lambda>(z', w). Inr z')"
| "sink_do A z (OpWriteBytes p) = WriteBytes A z p"
| "sink_do A z (OpWriteUint8 x) = WriteUint8 A z x"
| "sink_do A z (OpWriteByte x) = WriteByte A z x"
| "sink_do A z (OpWriteBool x) = WriteBool A z x"
| "sink_do A z (OpWriteUint16 x) = WriteUint16 A z x"
| "sink_do A z (OpWriteUint32 x) = WriteUint32 A z x"
| "sink_do A z (OpWriteUint64 x) = WriteUint64 A z x"
| "sink_do A z (OpWriteInt64 x) = WriteInt64 A z x"
| "sink_do A z (OpWriteInt32 x) = WriteInt32 A z x"
| "sink_do A z (OpWriteInt16 x) = WriteInt16 A z x"
| "sink_do A z (OpWriteVarBytes p) = bind_p (WriteVarBytes A z p) (\<lambda>(z', k). Inr z')"
| "sink_do A z (OpWriteString p) = bind_p (WriteString A z p) (\<lambda>(z', k). Inr z')"
| "sink_do A z (OpWriteAddress p) = WriteAddress A z p"
| "sink_do A z (OpWriteHash p) = WriteHash A z p"
| "sink_do A z (OpWriteVarUint v) = bind_p (WriteVarUint A z v) (\<lambda>(z', k). Inr z')"

fun sink_run :: "nat \<Rightarrow> ZeroCopySink \<Rightarrow> sink_write list \<Rightarrow> panic + ZeroCopySink" where
  "sink_run A z [] = Inr z"
| "sink_run A z (x # xs) = bind_p (sink_do A z x) (\<lambda>z'. sink_run A z' xs)"

section \<open>Words and bytes\<close>

lemma bind_p_simps [simp]:
  "bind_p (Inl e) f = Inl e" "bind_p (Inr x) f = f x"
  by (simp_all add: bind_p_def)

lemma sint_nonneg_unat:
  assumes "0 \<le> sint (n :: 64 word)"
  shows "nat (sint n) = unat n"
proof -
  have "sint n < 2 ^ 63" using sint_lt [of n] by simp
  with assms have "take_bit 64 (sint n) = sint n"
    by (intro take_bit_int_eq_self) auto
  then have "uint n = sint n" using uint_sint [of n] by simp
  then show ?thesis by (simp add: unat_eq_nat_uint)
qed

lemma ucast8_id:
  assumes "v \<le> 0xFC"
  shows "ucast (ucast (v :: 64 word) :: 8 word) = v"
proof -
  have "unat v < 2 ^ 8" using assms by (simp add: word_le_nat_alt)
  then have "take_bit 8 (unat v) = unat v" by (simp add: take_bit_nat_eq_self)
  then have "unat (ucast (ucast v :: 8 word) :: 64 word) = unat v"
    by (simp add: unsigned_ucast_eq unsigned_take_bit_eq)
  then show ?thesis by (simp add: word_unat_eq_iff)
qed

lemma ucast16_id:
  assumes "v \<le> 0xFFFF"
  shows "ucast (ucast (v :: 64 word) :: 16 word) = v"
proof -
  have "unat v < 2 ^ 16" using assms by (simp add: word_le_nat_alt)
  then have "take_bit 16 (unat v) = unat v" by (simp add: take_bit_nat_eq_self)
  then have "unat (ucast (ucast v :: 16 word) :: 64 word) = unat v"
    by (simp add: unsigned_ucast_eq unsigned_take_bit_eq)
  then show ?thesis by (simp add: word_unat_eq_iff)
qed

lemma ucast32_id:
  assumes "v \<le> 0xFFFFFFFF"
  shows "ucast (ucast (v :: 64 word) :: 32 word) = v"
proof -
  have "unat v < 2 ^ 32" using assms by (simp add: word_le_nat_alt)
  then have "take_bit 32 (unat v) = unat v" by (simp add: take_bit_nat_eq_self)
  then have "unat (ucast (ucast v :: 32 word) :: 64 word) = unat v"
    by (simp add: unsigned_ucast_eq unsigned_take_bit_eq)
  then show ?thesis by (simp add: word_unat_eq_iff)
qed

lemma small_discr:
  assumes "v \<le> 0xFC"
  shows "(ucast (v :: 64 word) :: 8 word) \<notin> {0xFD, 0xFE, 0xFF}"
proof
  assume "(ucast v :: 8 word) \<in> {0xFD, 0xFE, 0xFF}"
  then have "(ucast (ucast v :: 8 word) :: 64 word) \<in> {0xFD, 0xFE, 0xFF}" by auto
  then have "v \<in> {0xFD, 0xFE, 0xFF}" using assms by (simp add: ucast8_id)
  with assms show False by auto
qed

lemma trunc16:
  "(ucast (ucast (v :: 64 word) :: 16 word) :: 8 word) = ucast v"
  "ucast (drop_bit 8 (ucast (v :: 64 word) :: 16 word)) = (ucast (drop_bit 8 v) :: 8 word)"
  by (rule bit_word_eqI; simp add: bit_simps)+

lemma trunc32:
  "(ucast (ucast (v :: 64 word) :: 32 word) :: 8 word) = ucast v"
  "ucast (drop_bit 8 (ucast (v :: 64 word) :: 32 word)) = (ucast (drop_bit 8 v) :: 8 word)"
  "ucast (drop_bit 16 (ucast (v :: 64 word) :: 32 word)) = (ucast (drop_bit 16 v) :: 8 word)"
  "ucast (drop_bit 24 (ucast (v :: 64 word) :: 32 word)) = (ucast (drop_bit 24 v) :: 8 word)"
  by (rule bit_word_eqI; simp add: bit_simps)+

text \<open>Two, four and eight bytes, least significant first, put together give the word back.\<close>

lemma le16:
  "ucast (ucast v :: 8 word) OR push_bit 8 (ucast (ucast (drop_bit 8 v) :: 8 word)) =
   (v :: 16 word)"
  by (rule bit_word_eqI) (auto simp: bit_simps)

lemma le32:
  "ucast (ucast v :: 8 word) OR push_bit 8 (ucast (ucast (drop_bit 8 v) :: 8 word))
   OR push_bit 16 (ucast (ucast (drop_bit 16 v) :: 8 word))
   OR push_bit 24 (ucast (ucast (drop_bit 24 v) :: 8 word)) = (v :: 32 word)" (is "?w = v")
proof (rule bit_word_eqI)
  fix n :: nat
  assume "n < LENGTH(32)"
  then have "n < 32" by simp
  then consider "n < 8" | "8 \<le> n" "n < 16" | "16 \<le> n" "n < 24" | "24 \<le> n" "n < 32"
    by linarith
  then show "bit ?w n = bit v n"
    by cases (auto simp: bit_simps)
qed

lemma le64:
  "ucast (ucast v :: 8 word) OR push_bit 8 (ucast (ucast (drop_bit 8 v) :: 8 word))
   OR push_bit 16 (ucast (ucast (drop_bit 16 v) :: 8 word))
   OR push_bit 24 (ucast (ucast (drop_bit 24 v) :: 8 word))
   OR push_bit 32 (ucast (ucast (drop_bit 32 v) :: 8 word))
   OR push_bit 40 (ucast (ucast (drop_bit 40 v) :: 8 word))
   OR push_bit 48 (ucast (ucast (drop_bit 48 v) :: 8 word))
   OR push_bit 56 (ucast (ucast (drop_bit 56 v) :: 8 word)) = (v :: 64 word)" (is "?w = v")
proof (rule bit_word_eqI)
  fix n :: nat
  assume "n < LENGTH(64)"
  then have "n < 64" by simp
  then consider "n < 8" | "8 \<le> n" "n < 16" | "16 \<le> n" "n < 24" | "24 \<le> n" "n < 32"
    | "32 \<le> n" "n < 40" | "40 \<le> n" "n < 48" | "48 \<le> n" "n < 56" | "56 \<le> n" "n < 64"
    by linarith
  then show "bit ?w n = bit v n"
    by cases (auto simp: bit_simps)
qed

lemma dec16:
  assumes "v \<le> 0xFFFF"
  shows "ucast (ucast (ucast v :: 8 word) OR push_bit 8 (ucast (ucast (drop_bit 8 v) :: 8 word))
           :: 16 word) = (v :: 64 word)"
  using le16 [of "ucast v"] assms by (simp add: trunc16 ucast16_id)

lemma dec32:
  assumes "v \<le> 0xFFFFFFFF"
  shows "ucast (ucast (ucast v :: 8 word) OR push_bit 8 (ucast (ucast (drop_bit 8 v) :: 8 word))
           OR push_bit 16 (ucast (ucast (drop_bit 16 v) :: 8 word))
           OR push_bit 24 (ucast (ucast (drop_bit 24 v) :: 8 word)) :: 32 word) = (v :: 64 word)"
  using le32 [of "ucast v"] assms by (simp add: trunc32 ucast32_id)

lemma take_upd_last:
  "k = Suc i \<Longrightarrow> i < length a \<Longrightarrow> take k (a[i := x]) = take i a @ [x]"
  by (simp add: take_Suc_conv_app_nth)

lemma varint_ranges:
  "(v :: uint64) < 0xFD \<longleftrightarrow> v \<le> 0xFC"
  "\<not> v \<le> 0xFFFF \<Longrightarrow> \<not> v \<le> 0xFC"
  "\<not> v \<le> 0xFFFFFFFF \<Longrightarrow> \<not> v \<le> 0xFFFF"
  "\<not> v \<le> 0xFFFFFFFF \<Longrightarrow> \<not> v \<le> 0xFC"
  by (auto simp: word_less_nat_alt word_le_nat_alt)

lemma length_varint_form: "length (varint_form v) = varint_size v"
  by (simp add: varint_form_def varint_size_def)

section \<open>Reserving bytes in the sink\<close>

lemma sink_inv_New: "sink_inv (NewZeroCopySink None)"
  by (simp add: sink_inv_def NewZeroCopySink_def maxInt_def)

text \<open>
  What \<open>NextBytes\<close> does on a well-formed sink, case by case: a count whose \<open>int\<close> is
  negative panics in a slice expression; a count that fits is a reslice; otherwise the
  guard of \<open>grow\<close>, the allocation, and the copy.
\<close>

lemma NextBytes_eq:
  assumes "sink_inv z"
  shows "NextBytes A z n =
    (let k = sint n; l = slen (buf z); c = length (arr (buf z))
     in if k < 0 then Inl SliceBoundsOutOfRange
        else if k \<le> int c - int l then Inr (z\<lparr>buf := (buf z)\<lparr>slen := l + nat k\<rparr>\<rparr>, l)
        else if maxInt < 2 * int c + k then Inl ErrTooLarge
        else if int A < 2 * int c + k then Inl BytesErrTooLarge
        else Inr (z\<lparr>buf := \<lparr>arr = take l (arr (buf z)) @ replicate (2 * c + nat k - l) 0,
                                slen = l + nat k\<rparr>\<rparr>, l))"
  using assms
  apply (simp add: NextBytes_def tryGrowByReSlice_def grow_def Let_def len_s_def cap_s_def
      int_of_uint64_def reslice_to_def slice_from_def sink_inv_def makeSlice_def copy_s_def
      elems_def)
  apply (auto simp: nat_add_distrib nat_mult_distrib)
  done

lemma NextBytes_InrD:
  assumes "sink_inv z" and "NextBytes A z n = Inr (z', w)"
  shows "w = slen (buf z)" and "slen (buf z') = slen (buf z) + unat n" and "0 \<le> sint n"
    and "take (slen (buf z)) (arr (buf z')) = take (slen (buf z)) (arr (buf z))"
    and "sink_inv z'"
proof -
  from assms have k: "0 \<le> sint n"
    by (auto simp: NextBytes_eq Let_def split: if_splits)
  note u = sint_nonneg_unat [OF k]
  show "0 \<le> sint n" by (rule k)
  from assms k show "w = slen (buf z)"
    by (auto simp: NextBytes_eq Let_def split: if_splits)
  from assms k u show "slen (buf z') = slen (buf z) + unat n"
    by (auto simp: NextBytes_eq Let_def split: if_splits)
  from assms k show "take (slen (buf z)) (arr (buf z')) = take (slen (buf z)) (arr (buf z))"
    by (auto simp: NextBytes_eq Let_def sink_inv_def split: if_splits)
  from assms k show "sink_inv z'"
    by (auto simp: NextBytes_eq Let_def sink_inv_def split: if_splits)
qed

section \<open>Writing and reading a varint\<close>

lemma WriteVarUint_panics:
  "NextBytes A z 9 = Inl e \<Longrightarrow> WriteVarUint A z v = Inl e"
  by (simp add: WriteVarUint_def)

lemma WriteVarUint_ok:
  assumes inv: "sink_inv z" and nb: "NextBytes A z 9 = Inr r"
  shows "\<exists>z'. WriteVarUint A z v = Inr (z', of_nat (varint_size v))"
proof -
  obtain z1 w1 where r: "r = (z1, w1)" by (cases r)
  note f = NextBytes_InrD [OF inv nb [unfolded r]]
  let ?l = "slen (buf z)"
  have l9: "slen (buf z1) = ?l + 9" using f(2) by simp
  have cap: "?l + 9 \<le> length (arr (buf z1))" "int (length (arr (buf z1))) \<le> maxInt"
    using f(5) l9 by (simp_all add: sink_inv_def)
  have wr: "wrap_int (k + int ?l) = k + int ?l" if "0 \<le> k" "k \<le> 9" for k
    using cap that unfolding wrap_int_def maxInt_def
    by (intro signed_take_bit_int_eq_self) simp_all
  have wr9: "wrap_int (int ?l + 9) = int ?l + 9"
    using wr [of 9] by (simp add: add.commute)
  from nb r l9 f(1) cap wr [of 1] wr [of 3] wr [of 5] wr9 show ?thesis
    by (simp add: WriteVarUint_def varint_size_def varint_ranges store_def BackUp_def len_s_def
        cap_s_def int_of_uint64_def reslice_to_def Let_def window_from_def PutUint16_def
        PutUint32_def PutUint64_def)
qed

lemma WriteVarUint_InrD:
  assumes inv: "sink_inv z" and w: "WriteVarUint A z v = Inr (z', sz)"
  shows "Bytes z' = Bytes z @ varint_form v" and "sz = of_nat (varint_size v)"
    and "sink_inv z'" and "slen (buf z') = slen (buf z) + varint_size v"
proof -
  from w obtain z1 w1 where nb: "NextBytes A z 9 = Inr (z1, w1)"
    by (cases "NextBytes A z 9") (auto simp: WriteVarUint_def)
  note f = NextBytes_InrD [OF inv nb]
  let ?l = "slen (buf z)"
  have l9: "slen (buf z1) = ?l + 9" using f(2) by simp
  have cap: "?l + 9 \<le> length (arr (buf z1))" "int (length (arr (buf z1))) \<le> maxInt"
    using f(5) l9 by (simp_all add: sink_inv_def)
  have wr: "wrap_int (k + int ?l) = k + int ?l" if "0 \<le> k" "k \<le> 9" for k
    using cap that unfolding wrap_int_def maxInt_def
    by (intro signed_take_bit_int_eq_self) simp_all
  have wr9: "wrap_int (int ?l + 9) = int ?l + 9"
    using wr [of 9] by (simp add: add.commute)
  have pre: "take ?l (arr (buf z1)) = Bytes z" using f(4) by (simp add: Bytes_def elems_def)
  from WriteVarUint_ok [OF inv nb, of v] w show "sz = of_nat (varint_size v)"
    by auto
  from w nb f(5) show "sink_inv z'"
    by (auto simp: WriteVarUint_def store_def BackUp_def reslice_to_def cap_s_def Let_def
        window_from_def PutUint16_def PutUint32_def PutUint64_def sink_inv_def bind_p_def
        split: if_splits sum.splits)
  consider "v \<le> 0xFC" | "\<not> v \<le> 0xFC" "v \<le> 0xFFFF" | "\<not> v \<le> 0xFFFF" "v \<le> 0xFFFFFFFF"
    | "\<not> v \<le> 0xFFFFFFFF"
    by (meson order_trans linear)
  then have "Bytes z' = Bytes z @ varint_form v \<and> slen (buf z') = ?l + varint_size v"
  proof cases
    case 1
    with w nb l9 f(1) cap wr [of 1] pre show ?thesis
      by (auto simp: WriteVarUint_def varint_form_def varint_size_def varint_ranges store_def
          BackUp_def len_s_def cap_s_def int_of_uint64_def reslice_to_def Bytes_def elems_def
          Let_def nat_add_distrib take_upd_last split: if_splits)
  next
    case 2
    with w nb l9 f(1) cap wr [of 3] pre show ?thesis
      by (auto simp: WriteVarUint_def varint_form_def varint_size_def varint_ranges store_def
          BackUp_def len_s_def cap_s_def int_of_uint64_def reslice_to_def Bytes_def elems_def
          Let_def nat_add_distrib take_upd_last window_from_def PutUint16_def trunc16
          split: if_splits)
  next
    case 3
    with w nb l9 f(1) cap wr [of 5] pre show ?thesis
      by (auto simp: WriteVarUint_def varint_form_def varint_size_def varint_ranges store_def
          BackUp_def len_s_def cap_s_def int_of_uint64_def reslice_to_def Bytes_def elems_def
          Let_def nat_add_distrib take_upd_last window_from_def PutUint32_def trunc32
          split: if_splits)
  next
    case 4
    with w nb l9 f(1) cap wr9 pre show ?thesis
      by (auto simp: WriteVarUint_def varint_form_def varint_size_def varint_ranges store_def
          BackUp_def len_s_def cap_s_def int_of_uint64_def reslice_to_def Bytes_def elems_def
          Let_def nat_add_distrib take_upd_last window_from_def PutUint64_def
          split: if_splits)
  qed
  then show "Bytes z' = Bytes z @ varint_form v"
    and "slen (buf z') = slen (buf z) + varint_size v" by simp_all
qed

lemma NextVarUint_varint_form:
  "NextVarUint (NewZeroCopySource (varint_form v)) =
     Inr (\<lparr>s = varint_form v, off = of_nat (varint_size v)\<rparr>, v, False)"
proof -
  consider "v \<le> 0xFC" | "\<not> v \<le> 0xFC" "v \<le> 0xFFFF" | "\<not> v \<le> 0xFFFF" "v \<le> 0xFFFFFFFF"
    | "\<not> v \<le> 0xFFFFFFFF"
    by (meson order_trans linear)
  then show ?thesis
  proof cases
    case 1
    with small_discr [OF 1] show ?thesis
      by (simp add: varint_form_def varint_size_def NextVarUint_def NewZeroCopySource_def
          NextByte_def ucast8_id)
  next
    case 2
    then show ?thesis
      by (simp add: varint_form_def varint_size_def NextVarUint_def NewZeroCopySource_def
          NextByte_def NextUint16_def NextBytesSrc_def SafeAdd_def subslice_def Uint16_def dec16)
  next
    case 3
    then show ?thesis
      by (simp add: varint_form_def varint_size_def varint_ranges NextVarUint_def
          NewZeroCopySource_def NextByte_def NextUint32_def NextBytesSrc_def SafeAdd_def
          subslice_def Uint32_def dec32)
  next
    case 4
    then show ?thesis
      by (simp add: varint_form_def varint_size_def varint_ranges NextVarUint_def
          NewZeroCopySource_def NextByte_def NextUint64_def NextBytesSrc_def SafeAdd_def
          subslice_def Uint64_def le64)
  qed
qed

text \<open>
  C1. Writing any \<open>uint64\<close> value \<open>v\<close> with \<open>WriteVarUint\<close> into an empty sink and reading
  the resulting bytes with \<open>NextVarUint\<close> from a new source returns \<open>v\<close> with the
  end-of-data flag false, the cursor behind the bytes written. The write into the sink
  of \<open>NewZeroCopySink(nil)\<close> always returns; for any other empty sink it returns unless
  the reservation of nine bytes panics.
\<close>

theorem varuint_round_trip:
  "(\<exists>z' sz. WriteVarUint A (NewZeroCopySink None) v = Inr (z', sz)) \<and>
   (\<forall>z z' sz. sink_inv z \<longrightarrow> slen (buf z) = 0 \<longrightarrow> WriteVarUint A z v = Inr (z', sz) \<longrightarrow>
      NextVarUint (NewZeroCopySource (Bytes z')) = Inr (\<lparr>s = Bytes z', off = sz\<rparr>, v, False))"
proof (intro conjI allI impI)
  have "NextBytes A (NewZeroCopySink None) 9 =
      Inr ((NewZeroCopySink None)\<lparr>buf := (buf (NewZeroCopySink None))\<lparr>slen := 9\<rparr>\<rparr>, 0)"
    by (subst NextBytes_eq [OF sink_inv_New]) (simp add: NewZeroCopySink_def)
  from WriteVarUint_ok [OF sink_inv_New this]
  show "\<exists>z' sz. WriteVarUint A (NewZeroCopySink None) v = Inr (z', sz)" by blast
next
  fix z z' sz
  assume inv: "sink_inv z" and e: "slen (buf z) = 0" and w: "WriteVarUint A z v = Inr (z', sz)"
  from e have "Bytes z = []" by (simp add: Bytes_def elems_def)
  with WriteVarUint_InrD [OF inv w] show
    "NextVarUint (NewZeroCopySource (Bytes z')) = Inr (\<lparr>s = Bytes z', off = sz\<rparr>, v, False)"
    by (simp add: NextVarUint_varint_form)
qed

theorem varuint_round_trip_witness:
  "sink_inv \<lparr>buf = \<lparr>arr = [0, 0, 0, 0, 0, 0, 0, 0, 0], slen = 0\<rparr>\<rparr> \<and>
   slen (buf \<lparr>buf = \<lparr>arr = [0, 0, 0, 0, 0, 0, 0, 0, 0], slen = 0\<rparr>\<rparr>) = 0 \<and>
   WriteVarUint 0 \<lparr>buf = \<lparr>arr = [0, 0, 0, 0, 0, 0, 0, 0, 0], slen = 0\<rparr>\<rparr> 0x10000 =
     Inr (\<lparr>buf = \<lparr>arr = [0xFE, 0, 0, 1, 0, 0, 0, 0, 0], slen = 5\<rparr>\<rparr>, 5) \<and>
   NextVarUint (NewZeroCopySource (Bytes \<lparr>buf = \<lparr>arr = [0xFE, 0, 0, 1, 0, 0, 0, 0, 0], slen = 5\<rparr>\<rparr>)) =
     Inr (\<lparr>s = Bytes \<lparr>buf = \<lparr>arr = [0xFE, 0, 0, 1, 0, 0, 0, 0, 0], slen = 5\<rparr>\<rparr>, off = 5\<rparr>,
          0x10000, False)"
proof -
  let ?z = "\<lparr>buf = \<lparr>arr = [0, 0, 0, 0, 0, 0, 0, 0, 0 :: byte], slen = 0\<rparr>\<rparr>"
  have i: "sink_inv ?z" by (simp add: sink_inv_def maxInt_def)
  have e: "slen (buf ?z) = 0" by simp
  have w: "WriteVarUint 0 ?z 0x10000 =
     Inr (\<lparr>buf = \<lparr>arr = [0xFE, 0, 0, 1, 0, 0, 0, 0, 0], slen = 5\<rparr>\<rparr>, 5)"
    by (simp add: WriteVarUint_def NextBytes_def tryGrowByReSlice_def len_s_def cap_s_def
        int_of_uint64_def reslice_to_def slice_from_def store_def window_from_def PutUint32_def
        BackUp_def wrap_int_def Let_def)
  from varuint_round_trip [of 0 "0x10000"] i e w show ?thesis by blast
qed

text \<open>
  C2. For every \<open>uint64\<close> value \<open>v\<close>, \<open>WriteVarUint\<close> appends exactly the form the table
  gives for \<open>v\<close>: one byte up to \<open>0xFC\<close>, three up to \<open>0xFFFF\<close>, five up to
  \<open>0xFFFFFFFF\<close>, nine above. \<open>Size\<close> grows by that count, which is also the value
  returned. On a well-formed sink the write panics only if the reservation of nine bytes
  does.
\<close>

theorem WriteVarUint_minimal:
  assumes "sink_inv z"
  shows "(\<forall>e. NextBytes A z 9 = Inl e \<longrightarrow> WriteVarUint A z v = Inl e) \<and>
         (\<forall>r. NextBytes A z 9 = Inr r \<longrightarrow>
            (\<exists>z'. WriteVarUint A z v = Inr (z', of_nat (varint_size v)) \<and>
                  Bytes z' = Bytes z @ varint_form v \<and>
                  length (varint_form v) = varint_size v \<and>
                  Size z' = Size z + of_nat (varint_size v) \<and>
                  slen (buf z') = slen (buf z) + varint_size v))"
proof (intro conjI allI impI)
  fix e assume "NextBytes A z 9 = Inl e"
  then show "WriteVarUint A z v = Inl e" by (rule WriteVarUint_panics)
next
  fix r assume "NextBytes A z 9 = Inr r"
  from WriteVarUint_ok [OF assms this, of v]
  obtain z' where w: "WriteVarUint A z v = Inr (z', of_nat (varint_size v))" ..
  note f = WriteVarUint_InrD [OF assms w]
  from f(4) have "Size z' = Size z + of_nat (varint_size v)"
    by (simp add: Size_def)
  with w f(1,4) show "\<exists>z'. WriteVarUint A z v = Inr (z', of_nat (varint_size v)) \<and>
                  Bytes z' = Bytes z @ varint_form v \<and>
                  length (varint_form v) = varint_size v \<and>
                  Size z' = Size z + of_nat (varint_size v) \<and>
                  slen (buf z') = slen (buf z) + varint_size v"
    by (auto simp: length_varint_form)
qed

theorem WriteVarUint_minimal_witness:
  "sink_inv \<lparr>buf = \<lparr>arr = [7, 0, 0, 0, 0, 0, 0, 0, 0, 0], slen = 1\<rparr>\<rparr> \<and>
   NextBytes 0 \<lparr>buf = \<lparr>arr = [7, 0, 0, 0, 0, 0, 0, 0, 0, 0], slen = 1\<rparr>\<rparr> 9 =
     Inr (\<lparr>buf = \<lparr>arr = [7, 0, 0, 0, 0, 0, 0, 0, 0, 0], slen = 10\<rparr>\<rparr>, 1) \<and>
   WriteVarUint 0 \<lparr>buf = \<lparr>arr = [7, 0, 0, 0, 0, 0, 0, 0, 0, 0], slen = 1\<rparr>\<rparr> 300 =
     Inr (\<lparr>buf = \<lparr>arr = [7, 0xFD, 0x2C, 1, 0, 0, 0, 0, 0, 0], slen = 4\<rparr>\<rparr>, 3) \<and>
   Bytes \<lparr>buf = \<lparr>arr = [7, 0xFD, 0x2C, 1, 0, 0, 0, 0, 0, 0], slen = 4\<rparr>\<rparr> =
     [7, 0xFD, 0x2C, 1] \<and>
   varint_form 300 = [0xFD, 0x2C, 1]"
proof -
  let ?z = "\<lparr>buf = \<lparr>arr = [7, 0, 0, 0, 0, 0, 0, 0, 0, 0 :: byte], slen = 1\<rparr>\<rparr>"
  have i: "sink_inv ?z" by (simp add: sink_inv_def maxInt_def)
  have n: "NextBytes 0 ?z 9 =
     Inr (\<lparr>buf = \<lparr>arr = [7, 0, 0, 0, 0, 0, 0, 0, 0, 0], slen = 10\<rparr>\<rparr>, 1)"
    by (simp add: NextBytes_def tryGrowByReSlice_def len_s_def cap_s_def
        int_of_uint64_def reslice_to_def slice_from_def Let_def)
  have w: "WriteVarUint 0 ?z 300 =
     Inr (\<lparr>buf = \<lparr>arr = [7, 0xFD, 0x2C, 1, 0, 0, 0, 0, 0, 0], slen = 4\<rparr>\<rparr>, 3)"
    by (simp add: WriteVarUint_def NextBytes_def tryGrowByReSlice_def slice_from_def store_def
        window_from_def PutUint16_def BackUp_def wrap_int_def Let_def len_s_def cap_s_def
        int_of_uint64_def reslice_to_def)
  have b: "Bytes ?z = [7]" by (simp add: Bytes_def elems_def)
  have v: "varint_form 300 = [0xFD, 0x2C, 1]" by (simp add: varint_form_def)
  from WriteVarUint_minimal [OF i, of 0 300] i n w b v show ?thesis by auto
qed

section \<open>Growth of the buffer\<close>

lemma grow_slow:
  assumes inv: "sink_inv z" and slow: "cap_s (buf z) - len_s (buf z) < n"
  shows "grow A z n =
     (if maxInt < 2 * cap_s (buf z) + n then Inl ErrTooLarge
      else if int A < 2 * cap_s (buf z) + n then Inl BytesErrTooLarge
      else Inr (z\<lparr>buf := \<lparr>arr = elems (buf z) @
                                replicate (nat (2 * cap_s (buf z) + n) - slen (buf z)) 0,
                          slen = slen (buf z) + nat n\<rparr>\<rparr>, len_s (buf z)))"
  using assms
  apply (simp add: tryGrowByReSlice_def grow_def Let_def len_s_def cap_s_def
      reslice_to_def sink_inv_def makeSlice_def copy_s_def elems_def)
  apply (auto simp: nat_add_distrib nat_mult_distrib)
  done

text \<open>
  C3. When the free capacity does not hold the \<open>n\<close> bytes asked for, \<open>grow\<close> panics with
  \<open>ErrTooLarge\<close> exactly if \<open>2 * capacity + n\<close> is above \<open>maxInt\<close>. If it returns, the new
  buffer has capacity exactly \<open>2 * capacity + n\<close>, begins with all the bytes of the old one,
  and its new length, \<open>n\<close> more than the old, is within that capacity. It does return
  whenever the sum is within \<open>maxInt\<close> and the allocation of that many bytes is granted;
  when \<open>make\<close> refuses the size, the panic is the other one, of \<open>makeSlice\<close>.
\<close>

theorem grow_slow_path:
  assumes "sink_inv z" and "cap_s (buf z) - len_s (buf z) < n"
  shows "(grow A z n = Inl ErrTooLarge \<longleftrightarrow> maxInt < 2 * cap_s (buf z) + n) \<and>
         (\<forall>z' i. grow A z n = Inr (z', i) \<longrightarrow>
            i = len_s (buf z) \<and> cap_s (buf z') = 2 * cap_s (buf z) + n \<and>
            take (slen (buf z)) (arr (buf z')) = elems (buf z) \<and>
            len_s (buf z') = len_s (buf z) + n \<and> len_s (buf z') \<le> cap_s (buf z')) \<and>
         (2 * cap_s (buf z) + n \<le> maxInt \<longrightarrow> 2 * cap_s (buf z) + n \<le> int A \<longrightarrow>
            (\<exists>z' i. grow A z n = Inr (z', i))) \<and>
         (2 * cap_s (buf z) + n \<le> maxInt \<longrightarrow> int A < 2 * cap_s (buf z) + n \<longrightarrow>
            grow A z n = Inl BytesErrTooLarge)"
  using assms
  by (auto simp: grow_slow [OF assms] len_s_def cap_s_def elems_def sink_inv_def)

theorem grow_slow_path_witness:
  "sink_inv \<lparr>buf = \<lparr>arr = [1, 2], slen = 2\<rparr>\<rparr> \<and>
   cap_s (buf \<lparr>buf = \<lparr>arr = [1, 2], slen = 2\<rparr>\<rparr>) - len_s (buf \<lparr>buf = \<lparr>arr = [1, 2], slen = 2\<rparr>\<rparr>) < 3 \<and>
   grow 7 \<lparr>buf = \<lparr>arr = [1, 2], slen = 2\<rparr>\<rparr> 3 =
     Inr (\<lparr>buf = \<lparr>arr = [1, 2, 0, 0, 0, 0, 0], slen = 5\<rparr>\<rparr>, 2) \<and>
   cap_s (buf \<lparr>buf = \<lparr>arr = [1, 2, 0, 0, 0, 0, 0], slen = 5\<rparr>\<rparr>) = 7 \<and>
   grow 7 \<lparr>buf = \<lparr>arr = [1, 2], slen = 2\<rparr>\<rparr> maxInt = Inl ErrTooLarge"
proof -
  let ?z = "\<lparr>buf = \<lparr>arr = [1, 2 :: byte], slen = 2\<rparr>\<rparr>"
  have i: "sink_inv ?z" by (simp add: sink_inv_def maxInt_def)
  have s: "cap_s (buf ?z) - len_s (buf ?z) < 3" "cap_s (buf ?z) - len_s (buf ?z) < maxInt"
    by (simp_all add: cap_s_def len_s_def maxInt_def)
  have g: "grow 7 ?z 3 = Inr (\<lparr>buf = \<lparr>arr = [1, 2, 0, 0, 0, 0, 0], slen = 5\<rparr>\<rparr>, 2)"
    by (simp add: grow_def tryGrowByReSlice_def len_s_def cap_s_def maxInt_def makeSlice_def
        copy_s_def elems_def reslice_to_def Let_def eval_nat_numeral)
  have c: "cap_s (buf \<lparr>buf = \<lparr>arr = [1, 2, 0, 0, 0, 0, 0], slen = 5\<rparr>\<rparr>) = 7"
    by (simp add: cap_s_def)
  have m: "maxInt < 2 * cap_s (buf ?z) + maxInt" by (simp add: cap_s_def)
  from grow_slow_path [OF i s(2), of 7] m have "grow 7 ?z maxInt = Inl ErrTooLarge" by blast
  with i s(1) g c show ?thesis by blast
qed

section \<open>Reading from the source\<close>

lemma unat_Size:
  assumes "length (b :: byte list) < 2 ^ 64"
  shows "unat (of_nat (length b) :: uint64) = length b"
  using assms by (simp add: unat_of_nat)

lemma reads_eq:
  fixes z :: ZeroCopySource and n :: uint64
  assumes len: "length (s z) < 2 ^ 64" and cur: "unat (off z) \<le> length (s z)"
  defines "eof \<equiv> length (s z) < unat (off z) + unat n"
  defines "z' \<equiv> z\<lparr>off := (if eof then of_nat (length (s z)) else off z + n)\<rparr>"
  shows "NextBytesSrc z n = Inr (z', take (unat n) (drop (unat (off z)) (s z)), eof)"
    and "Skip z n = (z', eof)"
    and "unat (off z') = (if eof then length (s z) else unat (off z) + unat n)"
proof -
  let ?m = "of_nat (length (s z)) :: uint64"
  note m = unat_Size [OF len]
  have ov: "unat (off z + n) = unat (off z) + unat n" if "unat (off z) + unat n < 2 ^ 64"
    using that by (simp add: unat_add_lem [THEN iffD1])
  have e: "(2 ^ 64 \<le> unat (off z) + unat n \<or> ?m < off z + n) \<longleftrightarrow> eof"
  proof (cases "unat (off z) + unat n < 2 ^ 64")
    case True
    with ov m show ?thesis by (simp add: eof_def word_less_nat_alt)
  next
    case False
    with len show ?thesis by (simp add: eof_def)
  qed
  have c: "off z \<le> ?m" using cur m by (simp add: word_le_nat_alt)
  show "Skip z n = (z', eof)"
    using e by (simp add: Skip_def SafeAdd_def z'_def)
  show "unat (off z') = (if eof then length (s z) else unat (off z) + unat n)"
    using m ov [of ] len by (cases "unat (off z) + unat n < 2 ^ 64") (simp_all add: z'_def eof_def)
  show "NextBytesSrc z n = Inr (z', take (unat n) (drop (unat (off z)) (s z)), eof)"
  proof (cases eof)
    case True
    then have "take (unat n) (drop (unat (off z)) (s z)) = drop (unat (off z)) (s z)"
      by (simp add: eof_def)
    with True e c m show ?thesis
      by (simp add: NextBytesSrc_def SafeAdd_def z'_def subslice_def)
  next
    case False
    then have "unat (off z) + unat n \<le> length (s z)" by (simp add: eof_def)
    with len have lt: "unat (off z) + unat n < 2 ^ 64" by simp
    have "off z \<le> off z + n" using ov [OF lt] by (simp add: word_le_nat_alt)
    with False e m ov [OF lt] show ?thesis
      by (simp add: NextBytesSrc_def SafeAdd_def z'_def subslice_def eof_def)
  qed
qed

lemma at_end_reads:
  fixes z :: ZeroCopySource
  assumes len: "length (s z) < 2 ^ 64" and at_end: "off z = of_nat (length (s z))"
  shows "NextByte z = (z, 0, True)"
    and "k \<noteq> 0 \<Longrightarrow> NextBytesSrc z k = Inr (z, [], True)"
    and "k \<noteq> 0 \<Longrightarrow> Skip z k = (z, True)"
proof -
  show "NextByte z = (z, 0, True)" by (simp add: NextByte_def at_end)
  have u: "unat (off z) = length (s z)" using len by (simp add: at_end unat_of_nat)
  then have o: "unat (off z) \<le> length (s z)" by simp
  have id: "z\<lparr>off := of_nat (length (s z))\<rparr> = z" by (simp add: at_end [symmetric])
  assume "k \<noteq> 0"
  then have "0 < unat k" by (simp add: unat_gt_0)
  with u have x: "length (s z) < unat (off z) + unat k" by simp
  from reads_eq(1) [OF len o, of k] x u id show "NextBytesSrc z k = Inr (z, [], True)" by simp
  from reads_eq(2) [OF len o, of k] x id show "Skip z k = (z, True)" by simp
qed

lemma at_end_composite_reads:
  fixes z :: ZeroCopySource
  assumes len: "length (s z) < 2 ^ 64" and at_end: "off z = of_nat (length (s z))"
  shows "NextUint8 z = (z, 0, True)" and "NextBool z = (z, False, True)"
    and "NextUint16 z = Inr (z, 0, True)" and "NextUint32 z = Inr (z, 0, True)"
    and "NextUint64 z = Inr (z, 0, True)" and "NextInt16 z = Inr (z, 0, True)"
    and "NextInt32 z = Inr (z, 0, True)" and "NextInt64 z = Inr (z, 0, True)"
    and "NextVarUint z = Inr (z, 0, True)" and "NextVarBytes z = Inr (z, [], True)"
    and "NextString z = Inr (z, [], True)" and "NextAddress z = Inr (z, replicate 20 0, True)"
    and "NextHash z = Inr (z, replicate 32 0, True)"
proof -
  note b = at_end_reads(1) [OF len at_end]
  have n: "NextBytesSrc z 2 = Inr (z, [], True)" "NextBytesSrc z 4 = Inr (z, [], True)"
    "NextBytesSrc z 8 = Inr (z, [], True)" "NextBytesSrc z 20 = Inr (z, [], True)"
    "NextBytesSrc z 32 = Inr (z, [], True)"
    by (simp_all add: at_end_reads(2) [OF len at_end])
  show "NextUint8 z = (z, 0, True)" by (simp add: NextUint8_def b)
  show "NextBool z = (z, False, True)" by (simp add: NextBool_def b)
  show "NextUint16 z = Inr (z, 0, True)" by (simp add: NextUint16_def n)
  show "NextUint32 z = Inr (z, 0, True)" by (simp add: NextUint32_def n)
  show "NextUint64 z = Inr (z, 0, True)" by (simp add: NextUint64_def n)
  show "NextInt16 z = Inr (z, 0, True)" by (simp add: NextInt16_def NextUint16_def n)
  show "NextInt32 z = Inr (z, 0, True)" by (simp add: NextInt32_def NextUint32_def n)
  show "NextInt64 z = Inr (z, 0, True)" by (simp add: NextInt64_def NextUint64_def n)
  show v: "NextVarUint z = Inr (z, 0, True)" by (simp add: NextVarUint_def b)
  then show "NextVarBytes z = Inr (z, [], True)" by (simp add: NextVarBytes_def)
  then show "NextString z = Inr (z, [], True)" by (simp add: NextString_def)
  show "NextAddress z = Inr (z, replicate 20 0, True)" by (simp add: NextAddress_def n)
  show "NextHash z = Inr (z, replicate 32 0, True)" by (simp add: NextHash_def n)
qed

text \<open>
  C4, as the code has it. For a source over \<open>N\<close> bytes with its cursor \<open>c\<close> within the
  data, \<open>NextBytes(n)\<close> and \<open>Skip(n)\<close> report end-of-data exactly when \<open>c + n\<close> overflows
  \<open>uint64\<close> or exceeds \<open>N\<close>. Then the slice returned is the remainder of the data, the
  cursor is \<open>N\<close>, and every later read that asks for at least one byte reports
  end-of-data again: \<open>NextBytes(k)\<close> and \<open>Skip(k)\<close> with \<open>k\<close> not zero, \<open>NextByte\<close> and
  every reader built on them. Otherwise the slice has all \<open>n\<close> bytes, the flag is false
  and the cursor is \<open>c + n\<close>.
\<close>

theorem source_exhaustion:
  fixes z :: ZeroCopySource and n :: uint64
  assumes "length (s z) < 2 ^ 64" and "unat (off z) \<le> length (s z)"
  defines "N \<equiv> length (s z)" and "c \<equiv> unat (off z)"
  defines "eof \<equiv> (2 ^ 64 \<le> c + unat n \<or> N < c + unat n)"
  defines "z' \<equiv> z\<lparr>off := (if eof then of_nat N else off z + n)\<rparr>"
  shows "NextBytesSrc z n = Inr (z', take (unat n) (drop c (s z)), eof) \<and>
         Skip z n = (z', eof) \<and>
         (eof \<longrightarrow> take (unat n) (drop c (s z)) = drop c (s z) \<and> unat (off z') = N \<and>
                 (\<forall>k. k \<noteq> 0 \<longrightarrow> NextBytesSrc z' k = Inr (z', [], True) \<and> Skip z' k = (z', True)) \<and>
                 NextByte z' = (z', 0, True) \<and> NextUint8 z' = (z', 0, True) \<and>
                 NextBool z' = (z', False, True) \<and>
                 NextUint16 z' = Inr (z', 0, True) \<and> NextUint32 z' = Inr (z', 0, True) \<and>
                 NextUint64 z' = Inr (z', 0, True) \<and> NextInt16 z' = Inr (z', 0, True) \<and>
                 NextInt32 z' = Inr (z', 0, True) \<and> NextInt64 z' = Inr (z', 0, True) \<and>
                 NextVarUint z' = Inr (z', 0, True) \<and> NextVarBytes z' = Inr (z', [], True) \<and>
                 NextString z' = Inr (z', [], True) \<and>
                 NextAddress z' = Inr (z', replicate 20 0, True) \<and>
                 NextHash z' = Inr (z', replicate 32 0, True)) \<and>
         (\<not> eof \<longrightarrow> length (take (unat n) (drop c (s z))) = unat n \<and> unat (off z') = c + unat n)"
proof -
  have e: "eof \<longleftrightarrow> length (s z) < unat (off z) + unat n"
    using assms(1) unfolding eof_def N_def c_def by linarith
  have z': "z' = z\<lparr>off := (if length (s z) < unat (off z) + unat n
                           then of_nat (length (s z)) else off z + n)\<rparr>"
    unfolding z'_def e N_def ..
  note r = reads_eq [OF assms(1,2), of n]
  have 1: "NextBytesSrc z n = Inr (z', take (unat n) (drop c (s z)), eof)"
    unfolding z' e c_def by (rule r(1))
  have 2: "Skip z n = (z', eof)"
    unfolding z' e by (rule r(2))
  have 3: "unat (off z') = (if eof then N else c + unat n)"
    unfolding z' e c_def N_def by (rule r(3))
  have 4: "take (unat n) (drop c (s z)) = drop c (s z)" if eof
    using that unfolding e c_def by simp
  have 5: "length (take (unat n) (drop c (s z))) = unat n" if "\<not> eof"
    using that unfolding e c_def by simp
  have 6: "\<forall>k. k \<noteq> 0 \<longrightarrow> NextBytesSrc z' k = Inr (z', [], True) \<and> Skip z' k = (z', True)"
    and 7: "NextByte z' = (z', 0, True)" "NextUint8 z' = (z', 0, True)"
      "NextBool z' = (z', False, True)"
      "NextUint16 z' = Inr (z', 0, True)" "NextUint32 z' = Inr (z', 0, True)"
      "NextUint64 z' = Inr (z', 0, True)" "NextInt16 z' = Inr (z', 0, True)"
      "NextInt32 z' = Inr (z', 0, True)" "NextInt64 z' = Inr (z', 0, True)"
      "NextVarUint z' = Inr (z', 0, True)" "NextVarBytes z' = Inr (z', [], True)"
      "NextString z' = Inr (z', [], True)"
      "NextAddress z' = Inr (z', replicate 20 0, True)"
      "NextHash z' = Inr (z', replicate 32 0, True)" if eof
  proof -
    from that have l: "length (s z') < 2 ^ 64" and o: "off z' = of_nat (length (s z'))"
      using assms(1) unfolding z'_def N_def by simp_all
    from at_end_reads(2,3) [OF l o]
    show "\<forall>k. k \<noteq> 0 \<longrightarrow> NextBytesSrc z' k = Inr (z', [], True) \<and> Skip z' k = (z', True)"
      by blast
    show "NextByte z' = (z', 0, True)" by (rule at_end_reads(1) [OF l o])
    show "NextUint8 z' = (z', 0, True)"
      "NextBool z' = (z', False, True)"
      "NextUint16 z' = Inr (z', 0, True)" "NextUint32 z' = Inr (z', 0, True)"
      "NextUint64 z' = Inr (z', 0, True)" "NextInt16 z' = Inr (z', 0, True)"
      "NextInt32 z' = Inr (z', 0, True)" "NextInt64 z' = Inr (z', 0, True)"
      "NextVarUint z' = Inr (z', 0, True)" "NextVarBytes z' = Inr (z', [], True)"
      "NextString z' = Inr (z', [], True)"
      "NextAddress z' = Inr (z', replicate 20 0, True)"
      "NextHash z' = Inr (z', replicate 32 0, True)"
      by (rule at_end_composite_reads [OF l o])+
  qed
  show ?thesis
  proof (cases eof)
    case True
    from 1 2 3 4 [OF True] 6 [OF True] 7 [OF True] True show ?thesis by simp
  next
    case False
    from 1 2 3 5 [OF False] False show ?thesis by simp
  qed
qed

theorem source_exhaustion_witness:
  "length (s \<lparr>s = [1, 2, 3], off = 2\<rparr>) < 2 ^ 64 \<and>
   unat (off \<lparr>s = [1, 2, 3], off = 2\<rparr>) \<le> length (s \<lparr>s = [1, 2, 3], off = 2\<rparr>) \<and>
   NextBytesSrc \<lparr>s = [1, 2, 3], off = 2\<rparr> 5 = Inr (\<lparr>s = [1, 2, 3], off = 3\<rparr>, [3], True) \<and>
   Skip \<lparr>s = [1, 2, 3], off = 2\<rparr> 5 = (\<lparr>s = [1, 2, 3], off = 3\<rparr>, True) \<and>
   NextBytesSrc \<lparr>s = [1, 2, 3], off = 3\<rparr> 1 = Inr (\<lparr>s = [1, 2, 3], off = 3\<rparr>, [], True) \<and>
   NextByte \<lparr>s = [1, 2, 3], off = 3\<rparr> = (\<lparr>s = [1, 2, 3], off = 3\<rparr>, 0, True)"
proof -
  let ?z = "\<lparr>s = [1, 2, 3 :: byte], off = 2\<rparr>"
  have l: "length (s ?z) < 2 ^ 64" and o: "unat (off ?z) \<le> length (s ?z)" by simp_all
  have k: "(1 :: uint64) \<noteq> 0" by simp
  from source_exhaustion [OF l o, of 5] l o k show ?thesis
    by simp
qed

theorem source_exhaustion_counterexample:
  "NextBytesSrc (NewZeroCopySource [1, 2, 3]) 5 =
     Inr (\<lparr>s = [1, 2, 3], off = 3\<rparr>, [1, 2, 3], True) \<and>
   NextBytesSrc \<lparr>s = [1, 2, 3], off = 3\<rparr> 0 = Inr (\<lparr>s = [1, 2, 3], off = 3\<rparr>, [], False) \<and>
   Skip \<lparr>s = [1, 2, 3], off = 3\<rparr> 0 = (\<lparr>s = [1, 2, 3], off = 3\<rparr>, False) \<and>
   BackUpSrc \<lparr>s = [1, 2, 3], off = 3\<rparr> 0xFFFFFFFFFFFFFFFF = \<lparr>s = [1, 2, 3], off = 4\<rparr> \<and>
   NextBytesSrc \<lparr>s = [1, 2, 3], off = 4\<rparr> 1 = Inl SliceBoundsOutOfRange"
  by (simp add: NextBytesSrc_def NewZeroCopySource_def SafeAdd_def subslice_def Skip_def
      BackUpSrc_def)

lemma NextByte_inside:
  fixes z :: ZeroCopySource
  assumes len: "length (s z) < 2 ^ 64" and cur: "unat (off z) < length (s z)"
  shows "NextByte z = (z\<lparr>off := off z + 1\<rparr>, s z ! unat (off z), False)"
    and "unat (off z + 1) = unat (off z) + 1"
proof -
  have "off z < of_nat (length (s z))"
    using len cur by (simp add: word_less_nat_alt unat_of_nat)
  then show "NextByte z = (z\<lparr>off := off z + 1\<rparr>, s z ! unat (off z), False)"
    by (simp add: NextByte_def)
  from len cur have "unat (off z) + unat (1 :: uint64) < 2 ^ 64" by simp
  then have "unat (off z + 1) = unat (off z) + unat (1 :: uint64)"
    using unat_add_lem [of "off z" 1] by simp
  then show "unat (off z + 1) = unat (off z) + 1" by simp
qed

text \<open>
  C5. If \<open>NextVarUint\<close> reads a discriminator \<open>0xFD\<close>, \<open>0xFE\<close> or \<open>0xFF\<close> and fewer than
  the 2, 4 or 8 bytes it announces remain, the result is end-of-data with the value zero,
  and the cursor is where the failed fixed-width read left it: at the end of the data.
\<close>

theorem NextVarUint_short_read:
  fixes z :: ZeroCopySource
  assumes "length (s z) < 2 ^ 64" and "unat (off z) < length (s z)"
    and "(s z ! unat (off z), w) \<in> {(0xFD, 2), (0xFE, 4), (0xFF, 8)}"
    and "length (s z) - (unat (off z) + 1) < w"
  shows "NextVarUint z = Inr (z\<lparr>off := of_nat (length (s z))\<rparr>, 0, True)"
proof -
  let ?z1 = "z\<lparr>off := off z + 1\<rparr>"
  note b = NextByte_inside [OF assms(1,2)]
  have l: "length (s ?z1) < 2 ^ 64" using assms(1) by simp
  have o: "unat (off ?z1) \<le> length (s ?z1)" using assms(2) b(2) by simp
  have sh: "length (s ?z1) < unat (off ?z1) + w" using assms(2,4) b(2) by simp
  note r = reads_eq(1) [OF l o]
  from assms(3) consider "s z ! unat (off z) = 0xFD" "w = 2" | "s z ! unat (off z) = 0xFE" "w = 4"
    | "s z ! unat (off z) = 0xFF" "w = 8" by auto
  then show ?thesis
  proof cases
    case 1
    with sh r [of 2] have "NextUint16 ?z1 = Inr (z\<lparr>off := of_nat (length (s z))\<rparr>, 0, True)"
      by (simp add: NextUint16_def)
    with 1 b(1) show ?thesis by (simp add: NextVarUint_def)
  next
    case 2
    with sh r [of 4] have "NextUint32 ?z1 = Inr (z\<lparr>off := of_nat (length (s z))\<rparr>, 0, True)"
      by (simp add: NextUint32_def)
    with 2 b(1) show ?thesis by (simp add: NextVarUint_def)
  next
    case 3
    with sh r [of 8] have "NextUint64 ?z1 = Inr (z\<lparr>off := of_nat (length (s z))\<rparr>, 0, True)"
      by (simp add: NextUint64_def)
    with 3 b(1) show ?thesis by (simp add: NextVarUint_def)
  qed
qed

theorem NextVarUint_short_read_witness:
  "length (s \<lparr>s = [7, 0xFE, 1, 2, 3], off = 1\<rparr>) < 2 ^ 64 \<and>
   unat (off \<lparr>s = [7, 0xFE, 1, 2, 3], off = 1\<rparr>) < length (s \<lparr>s = [7, 0xFE, 1, 2, 3], off = 1\<rparr>) \<and>
   NextVarUint \<lparr>s = [7, 0xFE, 1, 2, 3], off = 1\<rparr> =
     Inr (\<lparr>s = [7, 0xFE, 1, 2, 3], off = 5\<rparr>, 0, True)"
proof -
  let ?z = "\<lparr>s = [7, 0xFE, 1, 2, 3 :: byte], off = 1\<rparr>"
  have l: "length (s ?z) < 2 ^ 64" and o: "unat (off ?z) < length (s ?z)" by simp_all
  have d: "(s ?z ! unat (off ?z), 4) \<in> {(0xFD, 2), (0xFE, 4), (0xFF, 8 :: nat)}" by simp
  have k: "length (s ?z) - (unat (off ?z) + 1) < 4" by simp
  from NextVarUint_short_read [OF l o d k] l o show ?thesis by simp
qed

text \<open>
  C10. \<open>Len\<close> never underflows: it is \<open>Size - Pos\<close> while the cursor is inside the data
  and zero once the cursor is at or behind the end, also when a \<open>BackUp\<close> by more than
  the cursor has wrapped the offset around to a value at or above the data's length.
\<close>

theorem Len_never_underflows:
  "Len z = (if off z < SizeSrc z then SizeSrc z - Pos z else 0) \<and>
   unat (Len z) = unat (SizeSrc z) - unat (Pos z) \<and>
   (unat (off z) < unat n \<longrightarrow> SizeSrc z \<le> off z - n \<longrightarrow>
      off (BackUpSrc z n) = off z - n \<and> Len (BackUpSrc z n) = 0)"
proof -
  have 1: "Len z = (if off z < SizeSrc z then SizeSrc z - Pos z else 0)"
    by (auto simp: Len_def SizeSrc_def Pos_def Let_def)
  have 2: "unat (Len z) = unat (SizeSrc z) - unat (Pos z)"
  proof (cases "off z < SizeSrc z")
    case True
    then have "off z \<le> SizeSrc z" by simp
    then have "unat (SizeSrc z - off z) = unat (SizeSrc z) - unat (off z)" by (rule unat_sub)
    with True show ?thesis by (simp add: 1 Pos_def)
  next
    case False
    then have "unat (SizeSrc z) \<le> unat (off z)" by (simp add: word_less_nat_alt)
    with False show ?thesis by (simp add: 1 Pos_def)
  qed
  have 3: "Len (BackUpSrc z n) = 0" if "SizeSrc z \<le> off z - n"
    using that by (simp add: Len_def BackUpSrc_def SizeSrc_def Let_def)
  from 1 2 3 show ?thesis by (simp add: BackUpSrc_def)
qed

theorem Len_never_underflows_witness:
  "unat (off (NewZeroCopySource [1, 2, 3])) < unat (1 :: uint64) \<and>
   SizeSrc (NewZeroCopySource [1, 2, 3]) \<le> off (NewZeroCopySource [1, 2, 3]) - 1 \<and>
   off (BackUpSrc (NewZeroCopySource [1, 2, 3]) 1) = 0xFFFFFFFFFFFFFFFF \<and>
   Len (BackUpSrc (NewZeroCopySource [1, 2, 3]) 1) = 0 \<and>
   Len (NewZeroCopySource [1, 2, 3]) = 3"
proof -
  let ?z = "NewZeroCopySource [1, 2, 3]"
  have a: "unat (off ?z) < unat (1 :: uint64)" by (simp add: NewZeroCopySource_def)
  have b: "SizeSrc ?z \<le> off ?z - 1" by (simp add: NewZeroCopySource_def SizeSrc_def)
  have c: "off ?z - 1 = 0xFFFFFFFFFFFFFFFF" by (simp add: NewZeroCopySource_def)
  have d: "Len ?z = 3" by (simp add: NewZeroCopySource_def Len_def)
  from Len_never_underflows [of ?z 1] a b c d show ?thesis by simp
qed

section \<open>Writes keep what was written\<close>

lemma keeps_refl: "keeps z z"
  by (simp add: keeps_def Bytes_def elems_def)

lemma keeps_trans:
  assumes "keeps z z1" and "keeps z1 z2"
  shows "keeps z z2"
proof -
  from assms have l: "slen (buf z) \<le> slen (buf z1)" "slen (buf z1) \<le> slen (buf z2)"
    by (simp_all add: keeps_def)
  have "take (slen (buf z)) (Bytes z2) = take (slen (buf z)) (take (slen (buf z1)) (Bytes z2))"
    using l by (simp add: min_def)
  also have "\<dots> = Bytes z" using assms by (simp add: keeps_def)
  finally show ?thesis using l by (simp add: keeps_def)
qed

lemma keeps_appended:
  assumes "sink_inv z" and "Bytes z' = Bytes z @ p"
  shows "keeps z z'"
proof -
  from assms(1) have l: "length (Bytes z) = slen (buf z)"
    by (simp add: Bytes_def elems_def sink_inv_def)
  have "length (Bytes z') \<le> slen (buf z')" by (simp add: Bytes_def elems_def)
  with assms(2) l have "slen (buf z) \<le> slen (buf z')" by simp
  with assms(2) l show ?thesis by (simp add: keeps_def)
qed

lemma NextBytes_cap:
  assumes "sink_inv z" and "NextBytes A z n = Inr (z', w)"
  shows "length (arr (buf z)) \<le> length (arr (buf z'))"
  using assms by (auto simp: NextBytes_eq Let_def sink_inv_def split: if_splits)

lemma NextBytes_keeps:
  assumes "sink_inv z" and "NextBytes A z n = Inr (z', w)"
  shows "keeps z z'"
proof -
  note f = NextBytes_InrD [OF assms]
  from f(2,4) show ?thesis
    by (simp add: keeps_def Bytes_def elems_def min_def)
qed

text \<open>A store into the window that \<open>NextBytes\<close> returned leaves the bytes before it.\<close>

lemma window_write_keeps:
  assumes inv: "sink_inv z" and nb: "NextBytes A z n = Inr (z1, w)"
    and same: "slen b = slen (buf z1)" "length (arr b) = length (arr (buf z1))"
      "take w (arr b) = take w (arr (buf z1))"
  shows "keeps z (z1\<lparr>buf := b\<rparr>)" and "sink_inv (z1\<lparr>buf := b\<rparr>)"
proof -
  note f = NextBytes_InrD [OF inv nb]
  from f(1,2,4) same show "keeps z (z1\<lparr>buf := b\<rparr>)"
    by (simp add: keeps_def Bytes_def elems_def min_def)
  from f(5) same show "sink_inv (z1\<lparr>buf := b\<rparr>)"
    by (simp add: sink_inv_def)
qed

lemma WriteBytes_InrD:
  assumes inv: "sink_inv z" and w: "WriteBytes A z p = Inr z'"
  shows "Bytes z' = Bytes z @ take (unat (of_nat (length p) :: uint64)) p"
    and "sink_inv z'" and "keeps z z'"
proof -
  let ?u = "unat (of_nat (length p) :: uint64)"
  from w obtain z1 w1 where nb: "NextBytes A z (of_nat (length p)) = Inr (z1, w1)"
    and z': "z' = z1\<lparr>buf := copy_s (buf z1) w1 p\<rparr>"
    by (cases "NextBytes A z (of_nat (length p))") (auto simp: WriteBytes_def)
  note f = NextBytes_InrD [OF inv nb]
  have u: "?u \<le> length p" by (simp add: unat_of_nat)
  have k: "min (slen (buf z1) - slen (buf z)) (length p) = ?u" using f(2) u by simp
  have c: "slen (buf z) + ?u \<le> length (arr (buf z1))"
    using f(2,5) by (simp add: sink_inv_def)
  have z'': "z' = z1\<lparr>buf := (buf z1)\<lparr>arr := take (slen (buf z)) (arr (buf z1)) @ take ?u p @
                   drop (slen (buf z) + ?u) (arr (buf z1))\<rparr>\<rparr>"
    by (simp add: z' f(1) copy_s_def Let_def k)
  from f(2,5) c u show "sink_inv z'"
    by (simp add: z'' sink_inv_def)
  from f(2,4) c u inv show "Bytes z' = Bytes z @ take ?u p"
    by (simp add: z'' Bytes_def elems_def sink_inv_def)
  with inv show "keeps z z'" by (rule keeps_appended)
qed

lemma WriteUint8_InrD:
  assumes inv: "sink_inv z" and w: "WriteUint8 A z x = Inr z'"
  shows "Bytes z' = Bytes z @ [x]" and "sink_inv z'" and "keeps z z'"
proof -
  from w obtain z1 w1 where nb: "NextBytes A z 1 = Inr (z1, w1)"
    by (cases "NextBytes A z 1") (auto simp: WriteUint8_def)
  note f = NextBytes_InrD [OF inv nb]
  have c: "slen (buf z) < length (arr (buf z1))" using f(2,5) by (simp add: sink_inv_def)
  from w nb f(1,2) have z': "z' = z1\<lparr>buf := (buf z1)\<lparr>arr := (arr (buf z1))[slen (buf z) := x]\<rparr>\<rparr>"
    by (simp add: WriteUint8_def store_def)
  from f(5) show "sink_inv z'" by (simp add: z' sink_inv_def)
  from f(2,4) c show "Bytes z' = Bytes z @ [x]"
    by (simp add: z' Bytes_def elems_def take_upd_last)
  with inv show "keeps z z'" by (rule keeps_appended)
qed

lemma WriteUint8_ok:
  assumes inv: "sink_inv z" and nb: "NextBytes A z 1 = Inr r"
  shows "\<exists>z'. WriteUint8 A z x = Inr z'"
proof -
  obtain z1 w1 where r: "r = (z1, w1)" by (cases r)
  note f = NextBytes_InrD [OF inv nb [unfolded r]]
  from nb r f(1,2) show ?thesis by (simp add: WriteUint8_def store_def)
qed

lemma WriteUint16_keeps:
  assumes inv: "sink_inv z" and w: "WriteUint16 A z x = Inr z'"
  shows "keeps z z' \<and> sink_inv z'"
proof -
  from w obtain z1 w1 where nb: "NextBytes A z 2 = Inr (z1, w1)"
    by (cases "NextBytes A z 2") (auto simp: WriteUint16_def)
  from w nb window_write_keeps [OF inv nb] show ?thesis
    by (auto simp: WriteUint16_def PutUint16_def split: if_splits)
qed

lemma WriteUint32_keeps:
  assumes inv: "sink_inv z" and w: "WriteUint32 A z x = Inr z'"
  shows "keeps z z' \<and> sink_inv z'"
proof -
  from w obtain z1 w1 where nb: "NextBytes A z 4 = Inr (z1, w1)"
    by (cases "NextBytes A z 4") (auto simp: WriteUint32_def)
  from w nb window_write_keeps [OF inv nb] show ?thesis
    by (auto simp: WriteUint32_def PutUint32_def split: if_splits)
qed

lemma WriteUint64_keeps:
  assumes inv: "sink_inv z" and w: "WriteUint64 A z x = Inr z'"
  shows "keeps z z' \<and> sink_inv z'"
proof -
  from w obtain z1 w1 where nb: "NextBytes A z 8 = Inr (z1, w1)"
    by (cases "NextBytes A z 8") (auto simp: WriteUint64_def)
  from w nb window_write_keeps [OF inv nb] show ?thesis
    by (auto simp: WriteUint64_def PutUint64_def split: if_splits)
qed

lemma WriteVarUint_keeps:
  assumes inv: "sink_inv z" and w: "WriteVarUint A z v = Inr (z', k)"
  shows "keeps z z' \<and> sink_inv z'"
  using WriteVarUint_InrD(1,3) [OF inv w] keeps_appended [OF inv] by blast

lemma WriteVarBytes_keeps:
  assumes inv: "sink_inv z" and w: "WriteVarBytes A z p = Inr (z', k)"
  shows "keeps z z' \<and> sink_inv z'"
proof -
  from w obtain z1 k1 where a: "WriteVarUint A z (of_nat (length p)) = Inr (z1, k1)"
    and b: "WriteBytes A z1 p = Inr z'"
    by (auto simp: WriteVarBytes_def Let_def bind_p_def split: sum.splits)
  note f = WriteVarUint_keeps [OF inv a]
  from f WriteBytes_InrD(2,3) [OF _ b] keeps_trans show ?thesis by blast
qed

lemma sink_do_keeps:
  assumes inv: "sink_inv z" and w: "sink_do A z x = Inr z'"
  shows "keeps z z' \<and> sink_inv z'"
proof (cases x)
  case (OpNextBytes n)
  with w obtain w1 where "NextBytes A z n = Inr (z', w1)"
    by (auto simp: bind_p_def split: sum.splits)
  with inv show ?thesis by (simp add: NextBytes_keeps NextBytes_InrD(5))
next
  case (OpWriteBool b)
  with w WriteUint8_InrD(2,3) [OF inv] show ?thesis
    by (auto simp: WriteBool_def WriteByte_def split: if_splits)
next
  case (OpWriteVarBytes p)
  with w WriteVarBytes_keeps [OF inv] show ?thesis
    by (auto simp: bind_p_def split: sum.splits)
next
  case (OpWriteString p)
  with w WriteVarBytes_keeps [OF inv] show ?thesis
    by (auto simp: bind_p_def WriteString_def split: sum.splits)
next
  case (OpWriteVarUint v)
  with w WriteVarUint_keeps [OF inv] show ?thesis
    by (auto simp: bind_p_def split: sum.splits)
qed (use w inv in \<open>auto simp: WriteByte_def WriteInt16_def WriteInt32_def WriteInt64_def
      WriteAddress_def WriteHash_def
      dest: WriteBytes_InrD(2,3) WriteUint8_InrD(2,3) WriteUint16_keeps WriteUint32_keeps
        WriteUint64_keeps\<close>)

lemma sink_run_keeps:
  "sink_inv z \<Longrightarrow> sink_run A z xs = Inr z' \<Longrightarrow> keeps z z' \<and> sink_inv z'"
proof (induction xs arbitrary: z)
  case Nil
  then show ?case by (simp add: keeps_refl)
next
  case (Cons x xs)
  from Cons.prems(2) obtain z1 where a: "sink_do A z x = Inr z1" and b: "sink_run A z1 xs = Inr z'"
    by (auto simp: bind_p_def split: sum.splits)
  from sink_do_keeps [OF Cons.prems(1) a] Cons.IH [OF _ b] keeps_trans show ?case by blast
qed

lemma sink_run_bytes:
  "sink_inv z \<Longrightarrow> sink_run A z (map OpWriteByte bs) = Inr z' \<Longrightarrow> Bytes z' = Bytes z @ bs"
proof (induction bs arbitrary: z)
  case Nil
  then show ?case by simp
next
  case (Cons b bs)
  from Cons.prems(2) obtain z1 where a: "WriteUint8 A z b = Inr z1"
    and r: "sink_run A z1 (map OpWriteByte bs) = Inr z'"
    by (auto simp: bind_p_def WriteByte_def split: sum.splits)
  from WriteUint8_InrD(1,2) [OF Cons.prems(1) a] Cons.IH [OF _ r] show ?case by simp
qed

text \<open>
  C7. Every write and every reservation of the sink, and so every sequence of them,
  leaves the bytes written before where they were: the first \<open>k\<close> bytes of the buffer,
  \<open>k\<close> the length before, are unchanged, across a reallocation too. The length stays
  within the capacity. Bytes written one after the other are all there, in order.
\<close>

theorem sink_writes_keep_bytes:
  assumes "sink_inv z"
  shows "(\<forall>ops z'. sink_run A z ops = Inr z' \<longrightarrow>
            take (slen (buf z)) (Bytes z') = Bytes z \<and> slen (buf z) \<le> slen (buf z') \<and>
            len_s (buf z') \<le> cap_s (buf z') \<and> cap_s (buf z') \<le> maxInt) \<and>
         (\<forall>op z'. sink_do A z op = Inr z' \<longrightarrow>
            take (slen (buf z)) (Bytes z') = Bytes z \<and> len_s (buf z') \<le> cap_s (buf z')) \<and>
         (\<forall>bs z'. sink_run A z (map OpWriteByte bs) = Inr z' \<longrightarrow> Bytes z' = Bytes z @ bs)"
proof (intro conjI allI impI)
  fix ops z' assume r: "sink_run A z ops = Inr z'"
  note k = sink_run_keeps [OF assms r]
  from k show "take (slen (buf z)) (Bytes z') = Bytes z" and "slen (buf z) \<le> slen (buf z')"
    and "len_s (buf z') \<le> cap_s (buf z')" and "cap_s (buf z') \<le> maxInt"
    by (simp_all add: keeps_def sink_inv_def len_s_def cap_s_def)
next
  fix op z' assume r: "sink_do A z op = Inr z'"
  note k = sink_do_keeps [OF assms r]
  from k show "take (slen (buf z)) (Bytes z') = Bytes z" and "len_s (buf z') \<le> cap_s (buf z')"
    by (simp_all add: keeps_def sink_inv_def len_s_def cap_s_def)
next
  fix bs z' assume "sink_run A z (map OpWriteByte bs) = Inr z'"
  with assms show "Bytes z' = Bytes z @ bs" by (rule sink_run_bytes)
qed

theorem sink_writes_keep_bytes_witness:
  "sink_inv \<lparr>buf = \<lparr>arr = [7, 8], slen = 2\<rparr>\<rparr> \<and>
   sink_run 100 \<lparr>buf = \<lparr>arr = [7, 8], slen = 2\<rparr>\<rparr> (map OpWriteByte [1, 2]) =
     Inr \<lparr>buf = \<lparr>arr = [7, 8, 1, 2, 0], slen = 4\<rparr>\<rparr> \<and>
   Bytes \<lparr>buf = \<lparr>arr = [7, 8, 1, 2, 0], slen = 4\<rparr>\<rparr> =
     Bytes \<lparr>buf = \<lparr>arr = [7, 8], slen = 2\<rparr>\<rparr> @ [1, 2]"
proof -
  let ?z = "\<lparr>buf = \<lparr>arr = [7, 8 :: byte], slen = 2\<rparr>\<rparr>"
  have i: "sink_inv ?z" by (simp add: sink_inv_def maxInt_def)
  have r: "sink_run 100 ?z (map OpWriteByte [1, 2]) =
     Inr \<lparr>buf = \<lparr>arr = [7, 8, 1, 2, 0], slen = 4\<rparr>\<rparr>"
    by (simp add: WriteByte_def WriteUint8_def NextBytes_def tryGrowByReSlice_def grow_def
        len_s_def cap_s_def int_of_uint64_def reslice_to_def slice_from_def store_def
        makeSlice_def copy_s_def elems_def maxInt_def Let_def eval_nat_numeral)
  from sink_writes_keep_bytes [OF i, of 100] i r show ?thesis by blast
qed

section \<open>Backing up\<close>

lemma BackUp_after_NextBytes:
  assumes inv: "sink_inv z" and nb: "NextBytes A z n = Inr (z1, w)"
  shows "BackUp z1 n = Inr (z1\<lparr>buf := (buf z1)\<lparr>slen := slen (buf z)\<rparr>\<rparr>)"
proof -
  note f = NextBytes_InrD [OF inv nb]
  have "int (nat (sint n)) = sint n" using f(3) by simp
  then have s: "sint n = int (unat n)" by (simp add: sint_nonneg_unat [OF f(3)])
  from inv have "int (slen (buf z)) \<le> maxInt" by (simp add: sink_inv_def)
  then have wr: "wrap_int (int (slen (buf z))) = int (slen (buf z))"
    unfolding wrap_int_def maxInt_def by (intro signed_take_bit_int_eq_self) simp_all
  from f(2,5) have "slen (buf z) \<le> length (arr (buf z1))" by (simp add: sink_inv_def)
  with f(2) s wr show ?thesis
    by (simp add: BackUp_def Let_def len_s_def cap_s_def int_of_uint64_def reslice_to_def)
qed

text \<open>
  C6, as the code has it. On a source, when \<open>Skip(n)\<close> does not report end-of-data,
  \<open>BackUp(n)\<close> after it gives the source back as it was, cursor included, so that every
  later read is the same. On a sink, when \<open>NextBytes(n)\<close> returns, \<open>BackUp(n)\<close> after it
  returns too and restores the length and the bytes; reserving again then gives the same
  window, and any later reservation starts at the same index.
\<close>

theorem backup_symmetry:
  "(snd (Skip src n) = False \<longrightarrow> BackUpSrc (fst (Skip src n)) n = src) \<and>
   (sink_inv z \<longrightarrow> NextBytes A z n = Inr (z1, w) \<longrightarrow>
      (\<exists>z2. BackUp z1 n = Inr z2 \<and> slen (buf z2) = slen (buf z) \<and> Bytes z2 = Bytes z \<and>
            NextBytes A z2 n = Inr (z1, w) \<and>
            (\<forall>k z3 w'. NextBytes A z2 k = Inr (z3, w') \<longrightarrow> w' = w)))"
proof (intro conjI impI)
  assume "snd (Skip src n) = False"
  then show "BackUpSrc (fst (Skip src n)) n = src"
    by (cases src) (simp add: Skip_def SafeAdd_def BackUpSrc_def Let_def split: if_splits)
next
  assume inv: "sink_inv z" and nb: "NextBytes A z n = Inr (z1, w)"
  let ?z2 = "z1\<lparr>buf := (buf z1)\<lparr>slen := slen (buf z)\<rparr>\<rparr>"
  note f = NextBytes_InrD [OF inv nb]
  note b = BackUp_after_NextBytes [OF inv nb]
  have i2: "sink_inv ?z2" using f(2,5) by (simp add: sink_inv_def)
  have l: "slen (buf ?z2) = slen (buf z)" by simp
  have same: "Bytes ?z2 = Bytes z" using f(4) by (simp add: Bytes_def elems_def)
  have u: "nat (sint n) = unat n" by (rule sint_nonneg_unat [OF f(3)])
  have fit: "sint n \<le> int (length (arr (buf z1))) - int (slen (buf z))"
    using f(2,3,5) u by (simp add: sink_inv_def) linarith
  have again: "NextBytes A ?z2 n = Inr (z1, w)"
    using f(1,2,3) fit u by (simp add: NextBytes_eq [OF i2] Let_def)
  have "w' = w" if "NextBytes A ?z2 k = Inr (z3, w')" for k z3 w'
    using NextBytes_InrD(1) [OF i2 that] f(1) by simp
  with b l same again show "\<exists>z2. BackUp z1 n = Inr z2 \<and> slen (buf z2) = slen (buf z) \<and>
      Bytes z2 = Bytes z \<and> NextBytes A z2 n = Inr (z1, w) \<and>
      (\<forall>k z3 w'. NextBytes A z2 k = Inr (z3, w') \<longrightarrow> w' = w)"
    by blast
qed

theorem backup_symmetry_witness:
  "snd (Skip \<lparr>s = [1, 2, 3], off = 1\<rparr> 2) = False \<and>
   BackUpSrc (fst (Skip \<lparr>s = [1, 2, 3], off = 1\<rparr> 2)) 2 = \<lparr>s = [1, 2, 3], off = 1\<rparr> \<and>
   sink_inv \<lparr>buf = \<lparr>arr = [7, 8, 9], slen = 1\<rparr>\<rparr> \<and>
   NextBytes 0 \<lparr>buf = \<lparr>arr = [7, 8, 9], slen = 1\<rparr>\<rparr> 2 =
     Inr (\<lparr>buf = \<lparr>arr = [7, 8, 9], slen = 3\<rparr>\<rparr>, 1) \<and>
   BackUp \<lparr>buf = \<lparr>arr = [7, 8, 9], slen = 3\<rparr>\<rparr> 2 = Inr \<lparr>buf = \<lparr>arr = [7, 8, 9], slen = 1\<rparr>\<rparr>"
proof -
  let ?src = "\<lparr>s = [1, 2, 3 :: byte], off = 1\<rparr>"
  let ?z = "\<lparr>buf = \<lparr>arr = [7, 8, 9 :: byte], slen = 1\<rparr>\<rparr>"
  have a: "snd (Skip ?src 2) = False" by (simp add: Skip_def SafeAdd_def)
  have i: "sink_inv ?z" by (simp add: sink_inv_def maxInt_def)
  have n: "NextBytes 0 ?z 2 = Inr (\<lparr>buf = \<lparr>arr = [7, 8, 9], slen = 3\<rparr>\<rparr>, 1)"
    by (simp add: NextBytes_def tryGrowByReSlice_def len_s_def cap_s_def int_of_uint64_def
        reslice_to_def slice_from_def Let_def)
  have b: "BackUp \<lparr>buf = \<lparr>arr = [7, 8, 9], slen = 3\<rparr>\<rparr> 2 =
      Inr \<lparr>buf = \<lparr>arr = [7, 8, 9], slen = 1\<rparr>\<rparr>"
    by (simp add: BackUp_def wrap_int_def len_s_def cap_s_def int_of_uint64_def reslice_to_def
        Let_def)
  from backup_symmetry [of ?src 2 ?z 0 "\<lparr>buf = \<lparr>arr = [7, 8, 9], slen = 3\<rparr>\<rparr>" 1] a i n b
  show ?thesis by simp
qed

theorem backup_symmetry_counterexample:
  "Skip (NewZeroCopySource [1, 2, 3]) 5 = (\<lparr>s = [1, 2, 3], off = 3\<rparr>, True) \<and>
   BackUpSrc \<lparr>s = [1, 2, 3], off = 3\<rparr> 5 = \<lparr>s = [1, 2, 3], off = 0xFFFFFFFFFFFFFFFE\<rparr> \<and>
   NextBytes 0 (NewZeroCopySink None) 0x8000000000000000 = Inl SliceBoundsOutOfRange"
  by (simp add: Skip_def NewZeroCopySource_def SafeAdd_def BackUpSrc_def NextBytes_def
      NewZeroCopySink_def tryGrowByReSlice_def len_s_def cap_s_def int_of_uint64_def
      reslice_to_def Let_def)

section \<open>Booleans and length-prefixed bytes\<close>

text \<open>
  C8. \<open>WriteBool\<close> appends the single byte \<open>0x00\<close> for false and \<open>0x01\<close> for true, and
  returns whenever the reservation of one byte does. \<open>NextBool\<close> reads \<open>0x00\<close> as false
  and \<open>0x01\<close> as true with the end-of-data flag false; on any other byte, and on an
  exhausted source, the flag is true.
\<close>

theorem bool_wire_format:
  "(sink_inv z \<longrightarrow>
      (\<forall>z'. WriteBool A z b = Inr z' \<longrightarrow> Bytes z' = Bytes z @ [if b then 1 else 0]) \<and>
      (\<forall>r. NextBytes A z 1 = Inr r \<longrightarrow> (\<exists>z'. WriteBool A z b = Inr z'))) \<and>
   NextBool src =
     (if SizeSrc src \<le> off src then (src, False, True)
      else if s src ! unat (off src) = 0 then (src\<lparr>off := off src + 1\<rparr>, False, False)
      else if s src ! unat (off src) = 1 then (src\<lparr>off := off src + 1\<rparr>, True, False)
      else (src\<lparr>off := off src + 1\<rparr>, False, True)) \<and>
   NextBool (NewZeroCopySource [if b then 1 else 0]) =
     (\<lparr>s = [if b then 1 else 0], off = 1\<rparr>, b, False)"
proof (intro conjI impI allI)
  fix z' assume "sink_inv z" and "WriteBool A z b = Inr z'"
  then show "Bytes z' = Bytes z @ [if b then 1 else 0]"
    by (auto simp: WriteBool_def WriteByte_def dest: WriteUint8_InrD(1) split: if_splits)
next
  fix r assume "sink_inv z" and "NextBytes A z 1 = Inr r"
  then show "\<exists>z'. WriteBool A z b = Inr z'"
    by (simp add: WriteBool_def WriteByte_def WriteUint8_ok)
next
  show "NextBool src =
     (if SizeSrc src \<le> off src then (src, False, True)
      else if s src ! unat (off src) = 0 then (src\<lparr>off := off src + 1\<rparr>, False, False)
      else if s src ! unat (off src) = 1 then (src\<lparr>off := off src + 1\<rparr>, True, False)
      else (src\<lparr>off := off src + 1\<rparr>, False, True))"
    by (simp add: NextBool_def NextByte_def SizeSrc_def)
next
  show "NextBool (NewZeroCopySource [if b then 1 else 0]) =
     (\<lparr>s = [if b then 1 else 0], off = 1\<rparr>, b, False)"
    by (simp add: NextBool_def NextByte_def NewZeroCopySource_def)
qed

theorem bool_wire_format_witness:
  "sink_inv \<lparr>buf = \<lparr>arr = [7, 0], slen = 1\<rparr>\<rparr> \<and>
   NextBytes 0 \<lparr>buf = \<lparr>arr = [7, 0], slen = 1\<rparr>\<rparr> 1 = Inr (\<lparr>buf = \<lparr>arr = [7, 0], slen = 2\<rparr>\<rparr>, 1) \<and>
   WriteBool 0 \<lparr>buf = \<lparr>arr = [7, 0], slen = 1\<rparr>\<rparr> True = Inr \<lparr>buf = \<lparr>arr = [7, 1], slen = 2\<rparr>\<rparr> \<and>
   Bytes \<lparr>buf = \<lparr>arr = [7, 1], slen = 2\<rparr>\<rparr> = Bytes \<lparr>buf = \<lparr>arr = [7, 0], slen = 1\<rparr>\<rparr> @ [1] \<and>
   NextBool (NewZeroCopySource [1]) = (\<lparr>s = [1], off = 1\<rparr>, True, False) \<and>
   NextBool (NewZeroCopySource [2]) = (\<lparr>s = [2], off = 1\<rparr>, False, True) \<and>
   NextBool (NewZeroCopySource []) = (\<lparr>s = [], off = 0\<rparr>, False, True)"
proof -
  let ?z = "\<lparr>buf = \<lparr>arr = [7, 0 :: byte], slen = 1\<rparr>\<rparr>"
  have i: "sink_inv ?z" by (simp add: sink_inv_def maxInt_def)
  have n: "NextBytes 0 ?z 1 = Inr (\<lparr>buf = \<lparr>arr = [7, 0], slen = 2\<rparr>\<rparr>, 1)"
    by (simp add: NextBytes_def tryGrowByReSlice_def len_s_def cap_s_def int_of_uint64_def
        reslice_to_def slice_from_def Let_def)
  have w: "WriteBool 0 ?z True = Inr \<lparr>buf = \<lparr>arr = [7, 1], slen = 2\<rparr>\<rparr>"
    by (simp add: WriteBool_def WriteByte_def WriteUint8_def NextBytes_def tryGrowByReSlice_def
        len_s_def cap_s_def int_of_uint64_def reslice_to_def slice_from_def store_def Let_def)
  have r: "NextBool (NewZeroCopySource [2]) = (\<lparr>s = [2], off = 1\<rparr>, False, True)"
    "NextBool (NewZeroCopySource []) = (\<lparr>s = [], off = 0\<rparr>, False, True)"
    by (simp_all add: NextBool_def NextByte_def NewZeroCopySource_def)
  note t = bool_wire_format [of ?z 0 True "NewZeroCopySource [1]"]
  from t [THEN conjunct1] i w
  have b: "Bytes \<lparr>buf = \<lparr>arr = [7, 1], slen = 2\<rparr>\<rparr> = Bytes ?z @ [1]"
    by simp
  from t [THEN conjunct2, THEN conjunct2]
  have d: "NextBool (NewZeroCopySource [1]) = (\<lparr>s = [1], off = 1\<rparr>, True, False)"
    by simp
  from i n w b d r show ?thesis by simp
qed

lemma WriteVarUint_cap:
  assumes inv: "sink_inv z" and w: "WriteVarUint A z v = Inr (z', sz)"
  shows "length (arr (buf z)) \<le> length (arr (buf z'))"
proof -
  from w obtain z1 w1 where nb: "NextBytes A z 9 = Inr (z1, w1)"
    by (cases "NextBytes A z 9") (auto simp: WriteVarUint_def)
  from w nb have "length (arr (buf z')) = length (arr (buf z1))"
    by (auto simp: WriteVarUint_def store_def BackUp_def reslice_to_def Let_def
        window_from_def PutUint16_def PutUint32_def PutUint64_def bind_p_def
        split: if_splits sum.splits)
  with NextBytes_cap [OF inv nb] show ?thesis by simp
qed

text \<open>
  C9. Writing the three bytes \<open>01 02 03\<close> with \<open>WriteVarBytes\<close> into the empty sink of
  \<open>NewZeroCopySink(nil)\<close> returns 4 and leaves the bytes \<open>03 01 02 03\<close>; \<open>NextVarBytes\<close> on
  a new source over these four bytes returns \<open>01 02 03\<close> with the end-of-data flag false.
\<close>

theorem var_bytes_example:
  "(\<exists>z'. WriteVarBytes A (NewZeroCopySink None) [1, 2, 3] = Inr (z', 4) \<and>
         Bytes z' = [3, 1, 2, 3]) \<and>
   NextVarBytes (NewZeroCopySource [3, 1, 2, 3]) =
     Inr (\<lparr>s = [3, 1, 2, 3], off = 4\<rparr>, [1, 2, 3], False)"
proof
  let ?z0 = "NewZeroCopySink None"
  have b0: "Bytes ?z0 = []" and c0: "length (arr (buf ?z0)) = 512"
    by (simp_all add: NewZeroCopySink_def Bytes_def elems_def)
  have "NextBytes A ?z0 9 = Inr (?z0\<lparr>buf := (buf ?z0)\<lparr>slen := 9\<rparr>\<rparr>, 0)"
    by (subst NextBytes_eq [OF sink_inv_New]) (simp add: NewZeroCopySink_def)
  from WriteVarUint_ok [OF sink_inv_New this, of 3]
  obtain z1 where w1: "WriteVarUint A ?z0 3 = Inr (z1, 1)"
    by (auto simp: varint_size_def)
  note f = WriteVarUint_InrD [OF sink_inv_New w1]
  from f(1) b0 have b1: "Bytes z1 = [3]" by (simp add: varint_form_def)
  from f(4) have l1: "slen (buf z1) = 1"
    by (simp add: NewZeroCopySink_def varint_size_def)
  from WriteVarUint_cap [OF sink_inv_New w1] c0 have c1: "512 \<le> length (arr (buf z1))"
    by simp
  have "NextBytes A z1 3 = Inr (z1\<lparr>buf := (buf z1)\<lparr>slen := 4\<rparr>\<rparr>, 1)"
    using l1 c1 by (subst NextBytes_eq [OF f(3)]) simp
  then obtain z2 where w2: "WriteBytes A z1 [1, 2, 3] = Inr z2"
    by (simp add: WriteBytes_def)
  from WriteBytes_InrD(1) [OF f(3) w2] b1 have b2: "Bytes z2 = [3, 1, 2, 3]" by simp
  from w1 w2 have "WriteVarBytes A ?z0 [1, 2, 3] = Inr (z2, 4)"
    by (simp add: WriteVarBytes_def)
  with b2 show "\<exists>z'. WriteVarBytes A ?z0 [1, 2, 3] = Inr (z', 4) \<and> Bytes z' = [3, 1, 2, 3]"
    by blast
next
  show "NextVarBytes (NewZeroCopySource [3, 1, 2, 3]) =
     Inr (\<lparr>s = [3, 1, 2, 3], off = 4\<rparr>, [1, 2, 3], False)"
    by (simp add: NextVarBytes_def NextVarUint_def NextByte_def NewZeroCopySource_def
        NextBytesSrc_def SafeAdd_def subslice_def)
qed

end
